theory Spec2Isabelle
  imports Main "HOL-Library.Word"
begin

section \<open>Data model of RingBuffer.h\<close>

text \<open>
  The fixed-width integer typedefs \<open>u8_t\<close> and \<open>u16_t\<close> are 8- and 16-bit words.
  The width of \<open>size_t\<close> is a property of the target platform: the structure takes
  the type of its \<open>size_t\<close> fields as the parameter \<open>'s\<close>, and the operations work on
  \<open>'w word RINGBUF_t\<close> for any width \<open>'w\<close>. The C standard guarantees at least 16 bits,
  which theorems assume as \<open>16 \<le> LENGTH('w)\<close> where they need it.
\<close>

type_synonym u8_t = "8 word"
type_synonym u16_t = "16 word"

datatype RINGBUF_STATUS = RINGBUF_OK | RINGBUF_ERR | RINGBUF_PARAM_ERR | RINGBUF_OVERFLOW

text \<open>
  \<open>struct RINGBUF_t\<close>. The pointer \<open>buf\<close> is modelled by the byte region it points
  to: \<open>None\<close> is the null pointer, \<open>Some bs\<close> a caller-allocated region of
  \<open>length bs\<close> bytes. The field \<open>size\<close> of the source is named \<open>size_rb\<close> here.
\<close>

record 's RINGBUF_t =
  buf :: "u8_t list option"
  tail :: 's
  head :: 's
  size_rb :: 's
  cell_size :: 's

section \<open>Memory accesses\<close>

text \<open>
  \<open>memcpy(&dst[doff], &src[soff], n)\<close> on two disjoint regions. The result is the
  destination region after the copy; \<open>None\<close> stands for the undefined behaviour of an
  access outside either region.
\<close>

definition memcpy :: "u8_t list \<Rightarrow> nat \<Rightarrow> u8_t list \<Rightarrow> nat \<Rightarrow> nat \<Rightarrow> u8_t list option" where
  "memcpy dst doff src soff n =
     (if doff + n \<le> length dst \<and> soff + n \<le> length src
      then Some (take doff dst @ take n (drop soff src) @ drop (doff + n) dst)
      else None)"

section \<open>The operations of RingBuffer.c\<close>

text \<open>
  Every operation returns the status together with the structure (and the output
  argument, where there is one) as the call leaves them. Operations that touch memory
  return \<open>None\<close> when the C code would access memory outside a region or through a null
  pointer it did not check. The pointer \<open>rb\<close> itself is taken to be valid throughout.
\<close>

definition RingBuf_Clear :: "('w::len) word RINGBUF_t \<Rightarrow> RINGBUF_STATUS \<times> 'w word RINGBUF_t" where
  "RingBuf_Clear rb =
     (if buf rb = None then (RINGBUF_PARAM_ERR, rb)
      else (RINGBUF_OK, rb\<lparr>tail := 0, head := 0\<rparr>))"

definition RingBuf_Init ::
  "u8_t list option \<Rightarrow> u16_t \<Rightarrow> 'w word \<Rightarrow> ('w::len) word RINGBUF_t \<Rightarrow> RINGBUF_STATUS \<times> 'w word RINGBUF_t" where
  "RingBuf_Init b sz cellsize rb =
     (let rb1 = rb\<lparr>size_rb := ucast sz\<rparr>;
          rb2 = rb1\<lparr>cell_size := cellsize\<rparr>;
          rb3 = rb2\<lparr>buf := b\<rparr>;
          rb4 = snd (RingBuf_Clear rb3)
      in (if buf rb4 \<noteq> None then RINGBUF_OK else RINGBUF_PARAM_ERR, rb4))"

text \<open>
  \<open>RingBuf_Available\<close>: the first argument is the value stored in \<open>*len\<close> before the
  call, the second component of the result the value stored there after it.
\<close>

definition RingBuf_Available ::
  "u16_t \<Rightarrow> ('w::len) word RINGBUF_t \<Rightarrow> RINGBUF_STATUS \<times> u16_t \<times> 'w word RINGBUF_t" where
  "RingBuf_Available len rb =
     (if buf rb = None then (RINGBUF_PARAM_ERR, len, rb)
      else if head rb < tail rb
        then (RINGBUF_OK, ucast (size_rb rb - tail rb + head rb), rb)
        else (RINGBUF_OK, ucast (head rb - tail rb), rb))"

definition RingBuf_BytePut ::
  "u8_t \<Rightarrow> ('w::len) word RINGBUF_t \<Rightarrow> (RINGBUF_STATUS \<times> 'w word RINGBUF_t) option" where
  "RingBuf_BytePut data rb =
     (case buf rb of
        None \<Rightarrow> Some (RINGBUF_PARAM_ERR, rb)
      | Some b \<Rightarrow>
          if unat (head rb) < length b then
            (let rb1 = rb\<lparr>buf := Some (b[unat (head rb) := data]), head := head rb + 1\<rparr>;
                 rb2 = (if head rb1 \<ge> size_rb rb1 then rb1\<lparr>head := 0\<rparr> else rb1)
             in Some (RINGBUF_OK, rb2))
          else None)"

text \<open>
  \<open>RingBuf_DataPut\<close>: \<open>input\<close> is the region the argument \<open>data\<close> points to. The local
  variables \<open>s_addr\<close> and \<open>space\<close> are \<open>size_t\<close>; \<open>len\<close> is a \<open>u16_t\<close> that is converted
  to \<open>size_t\<close> in every comparison and product and truncated back by \<open>len -= space\<close>.
\<close>

definition RingBuf_DataPut ::
  "u8_t list \<Rightarrow> u16_t \<Rightarrow> ('w::len) word RINGBUF_t \<Rightarrow> (RINGBUF_STATUS \<times> 'w word RINGBUF_t) option" where
  "RingBuf_DataPut input len rb =
     (case buf rb of
        None \<Rightarrow> Some (RINGBUF_PARAM_ERR, rb)
      | Some b \<Rightarrow>
          if ucast len > size_rb rb then Some (RINGBUF_OVERFLOW, rb)
          else
            let s_addr = (0 :: 'w word);
                space = size_rb rb - head rb;
                (b1, head1, s_addr1, len1) =
                  (if ucast len > space
                   then (memcpy b (unat (head rb * cell_size rb))
                                input (unat (s_addr * cell_size rb))
                                (unat (space * cell_size rb)),
                         0, space, (ucast (ucast len - space) :: u16_t))
                   else (Some b, head rb, s_addr, len))
            in case b1 of
                 None \<Rightarrow> None
               | Some b1' \<Rightarrow>
                   (case memcpy b1' (unat (head1 * cell_size rb))
                                input (unat (s_addr1 * cell_size rb))
                                (unat (ucast len1 * cell_size rb)) of
                      None \<Rightarrow> None
                    | Some b2 \<Rightarrow>
                        let head2 = head1 + ucast len1;
                            head3 = (if head2 \<ge> size_rb rb then 0 else head2)
                        in Some (RINGBUF_OK, rb\<lparr>buf := Some b2, head := head3\<rparr>)))"

definition RingBuf_CellPut ::
  "u8_t list \<Rightarrow> ('w::len) word RINGBUF_t \<Rightarrow> (RINGBUF_STATUS \<times> 'w word RINGBUF_t) option" where
  "RingBuf_CellPut data rb = RingBuf_DataPut data 1 rb"

text \<open>
  \<open>RingBuf_ByteWatch\<close>: \<open>data\<close> is \<open>None\<close> for a null pointer and \<open>Some v\<close> for a pointer
  to a byte holding \<open>v\<close>. The storage pointer is dereferenced without a check.
\<close>

definition RingBuf_ByteWatch ::
  "u8_t option \<Rightarrow> ('w::len) word RINGBUF_t \<Rightarrow> (RINGBUF_STATUS \<times> u8_t option \<times> 'w word RINGBUF_t) option" where
  "RingBuf_ByteWatch data rb =
     (case data of
        None \<Rightarrow> Some (RINGBUF_PARAM_ERR, data, rb)
      | Some _ \<Rightarrow>
          (case buf rb of
             None \<Rightarrow> None
           | Some b \<Rightarrow>
               if unat (tail rb) < length b
               then Some (RINGBUF_OK, Some (b ! unat (tail rb)), rb)
               else None))"

definition RingBuf_ByteRead ::
  "u8_t option \<Rightarrow> ('w::len) word RINGBUF_t \<Rightarrow> (RINGBUF_STATUS \<times> u8_t option \<times> 'w word RINGBUF_t) option" where
  "RingBuf_ByteRead data rb =
     (if buf rb = None then Some (RINGBUF_PARAM_ERR, data, rb)
      else
        case RingBuf_ByteWatch data rb of
          None \<Rightarrow> None
        | Some (st, data1, rb1) \<Rightarrow>
            if st \<noteq> RINGBUF_OK then Some (st, data1, rb1)
            else
              let rb2 = rb1\<lparr>tail := tail rb1 + 1\<rparr>;
                  rb3 = (if tail rb2 \<ge> size_rb rb2 then rb2\<lparr>tail := 0\<rparr> else rb2)
              in Some (st, data1, rb3))"

text \<open>
  \<open>RingBuf_DataWatch\<close>: \<open>data\<close> is \<open>None\<close> for a null pointer and \<open>Some d\<close> for a pointer
  to the region \<open>d\<close>. The local variables \<open>s_addr\<close>, \<open>space\<close> and \<open>loc_tail\<close> are
  \<open>u16_t\<close>, so the \<open>size_t\<close> values assigned to them are truncated. The storage pointer
  is not checked; copying from a null storage is undefined.
\<close>

definition RingBuf_DataWatch ::
  "u8_t list option \<Rightarrow> u16_t \<Rightarrow> ('w::len) word RINGBUF_t
     \<Rightarrow> (RINGBUF_STATUS \<times> u8_t list option \<times> 'w word RINGBUF_t) option" where
  "RingBuf_DataWatch data len rb =
     (case data of
        None \<Rightarrow> Some (RINGBUF_PARAM_ERR, data, rb)
      | Some d \<Rightarrow>
          if ucast len > size_rb rb then Some (RINGBUF_OVERFLOW, data, rb)
          else
            case buf rb of
              None \<Rightarrow> None
            | Some b \<Rightarrow>
                let s_addr = (0 :: u16_t);
                    space = (ucast (size_rb rb - tail rb) :: u16_t);
                    loc_tail = (ucast (tail rb) :: u16_t);
                    (d1, loc_tail1, s_addr1, len1) =
                      (if len > space
                       then (memcpy d (unat (ucast s_addr * cell_size rb))
                                    b (unat (ucast loc_tail * cell_size rb))
                                    (unat (ucast space * cell_size rb)),
                             0, space, len - space)
                       else (Some d, loc_tail, s_addr, len))
                in case d1 of
                     None \<Rightarrow> None
                   | Some d1' \<Rightarrow>
                       (case memcpy d1' (unat (ucast s_addr1 * cell_size rb))
                                    b (unat (ucast loc_tail1 * cell_size rb))
                                    (unat (ucast len1 * cell_size rb)) of
                          None \<Rightarrow> None
                        | Some d2 \<Rightarrow> Some (RINGBUF_OK, Some d2, rb)))"

definition RingBuf_CellWatch ::
  "u8_t list option \<Rightarrow> ('w::len) word RINGBUF_t
     \<Rightarrow> (RINGBUF_STATUS \<times> u8_t list option \<times> 'w word RINGBUF_t) option" where
  "RingBuf_CellWatch data rb = RingBuf_DataWatch data 1 rb"

definition RingBuf_DataRead ::
  "u8_t list option \<Rightarrow> u16_t \<Rightarrow> ('w::len) word RINGBUF_t
     \<Rightarrow> (RINGBUF_STATUS \<times> u8_t list option \<times> 'w word RINGBUF_t) option" where
  "RingBuf_DataRead data len rb =
     (if buf rb = None then Some (RINGBUF_PARAM_ERR, data, rb)
      else
        case RingBuf_DataWatch data len rb of
          None \<Rightarrow> None
        | Some (st, data1, rb1) \<Rightarrow>
            if st \<noteq> RINGBUF_OK then Some (st, data1, rb1)
            else
              let rb2 = rb1\<lparr>tail := tail rb1 + ucast len\<rparr>;
                  rb3 = (if tail rb2 \<ge> size_rb rb2 then rb2\<lparr>tail := 0\<rparr> else rb2)
              in Some (st, data1, rb3))"

definition RingBuf_CellRead ::
  "u8_t list option \<Rightarrow> ('w::len) word RINGBUF_t
     \<Rightarrow> (RINGBUF_STATUS \<times> u8_t list option \<times> 'w word RINGBUF_t) option" where
  "RingBuf_CellRead data rb = RingBuf_DataRead data 1 rb"

section \<open>Auxiliary notions for stating properties\<close>

text \<open>
  \<open>ring_window b m off n\<close> is the sequence of \<open>n\<close> bytes found in the first \<open>m\<close> bytes of
  \<open>b\<close> when reading from offset \<open>off\<close> and continuing at offset 0 after offset
  \<open>m - 1\<close>. \<open>ring_cells rb t n\<close> is that sequence for the \<open>n\<close> cells of the buffer
  starting at cell index \<open>t\<close>.
\<close>

definition ring_window :: "u8_t list \<Rightarrow> nat \<Rightarrow> nat \<Rightarrow> nat \<Rightarrow> u8_t list" where
  "ring_window b m off n = map (\<lambda>p. b ! ((off + p) mod m)) [0..<n]"

definition storage :: "'s RINGBUF_t \<Rightarrow> u8_t list" where
  "storage rb = (case buf rb of None \<Rightarrow> [] | Some b \<Rightarrow> b)"

definition ring_cells :: "('w::len) word RINGBUF_t \<Rightarrow> nat \<Rightarrow> nat \<Rightarrow> u8_t list" where
  "ring_cells rb t n =
     ring_window (storage rb) (unat (size_rb rb) * unat (cell_size rb))
       (t * unat (cell_size rb)) (n * unat (cell_size rb))"

text \<open>
  A bound buffer in a state the interface can produce: the storage pointer is non-null
  and its region holds at least \<open>size * cell_size\<close> bytes (and, being a C object, fewer
  than \<open>2 ^ LENGTH('w)\<close>); the capacity fits the \<open>u16_t\<close> parameter of \<open>RingBuf_Init\<close>;
  both indices are below the capacity.
\<close>

definition rb_valid :: "('w::len) word RINGBUF_t \<Rightarrow> bool" where
  "rb_valid rb \<longleftrightarrow>
     (case buf rb of
        None \<Rightarrow> False
      | Some b \<Rightarrow> unat (size_rb rb) * unat (cell_size rb) \<le> length b
                  \<and> length b < 2 ^ LENGTH('w))
     \<and> unat (size_rb rb) < 2 ^ 16
     \<and> head rb < size_rb rb \<and> tail rb < size_rb rb"

text \<open>The index invariant of the data model: capacity at least 1, both indices below it.\<close>

definition idx_inv :: "('w::len) word RINGBUF_t \<Rightarrow> bool" where
  "idx_inv rb \<longleftrightarrow> 1 \<le> size_rb rb \<and> head rb < size_rb rb \<and> tail rb < size_rb rb"

text \<open>
  Concrete structures used to evaluate the operations: a structure that was never
  initialised (static storage, all fields zero), the buffer that \<open>RingBuf_Init\<close> makes of
  it with a zeroed storage of three one-byte cells, and a bound buffer of three one-byte
  cells whose storage holds 11, 12, 10.
\<close>

definition rb_zero :: "32 word RINGBUF_t" where
  "rb_zero = \<lparr>buf = None, tail = 0, head = 0, size_rb = 0, cell_size = 0\<rparr>"

definition rb_fresh :: "32 word RINGBUF_t" where
  "rb_fresh = snd (RingBuf_Init (Some [0, 0, 0]) 3 1 rb_zero)"

definition rb3 :: "32 word \<Rightarrow> 32 word \<Rightarrow> 32 word RINGBUF_t" where
  "rb3 t h = \<lparr>buf = Some [11, 12, 10], tail = t, head = h, size_rb = 3, cell_size = 1\<rparr>"

text \<open>
  Sequences of calls. \<open>put_all\<close> runs \<open>RingBuf_DataPut\<close> on each source region and
  length in turn, and \<open>read_all\<close> runs \<open>RingBuf_DataRead\<close> on each output region and
  length in turn, collecting the cells each call delivered; both stop with \<open>None\<close> when
  a call does not return \<open>RINGBUF_OK\<close>. \<open>put_data\<close> is the sequence of bytes the calls of
  a put sequence are asked to store, \<open>total_len\<close> the number of cells of a sequence, and
  \<open>regions_ok\<close> says that every region of a sequence holds the cells of its call.
\<close>

fun put_all ::
  "('w::len) word RINGBUF_t \<Rightarrow> (u8_t list \<times> u16_t) list \<Rightarrow> 'w word RINGBUF_t option" where
  "put_all rb [] = Some rb"
| "put_all rb ((input, len) # ps) =
     (case RingBuf_DataPut input len rb of
        None \<Rightarrow> None
      | Some (st, rb') \<Rightarrow> if st = RINGBUF_OK then put_all rb' ps else None)"

fun read_all ::
  "('w::len) word RINGBUF_t \<Rightarrow> (u8_t list \<times> u16_t) list
     \<Rightarrow> (u8_t list \<times> 'w word RINGBUF_t) option" where
  "read_all rb [] = Some ([], rb)"
| "read_all rb ((d, len) # rs) =
     (case RingBuf_DataRead (Some d) len rb of
        None \<Rightarrow> None
      | Some (st, out, rb') \<Rightarrow>
          if st = RINGBUF_OK then
            (case read_all rb' rs of
               None \<Rightarrow> None
             | Some (bs, rb'') \<Rightarrow>
                 Some (take (unat len * unat (cell_size rb))
                         (case out of None \<Rightarrow> [] | Some d' \<Rightarrow> d') @ bs, rb''))
          else None)"

definition put_data :: "nat \<Rightarrow> (u8_t list \<times> u16_t) list \<Rightarrow> u8_t list" where
  "put_data c ps = concat (map (\<lambda>(input, len). take (unat len * c) input) ps)"

definition total_len :: "(u8_t list \<times> u16_t) list \<Rightarrow> nat" where
  "total_len ps = sum_list (map (\<lambda>(x, len). unat len) ps)"

definition regions_ok :: "nat \<Rightarrow> (u8_t list \<times> u16_t) list \<Rightarrow> bool" where
  "regions_ok c ps = list_all (\<lambda>(x, len). unat len * c \<le> length x) ps"

text \<open>
  \<open>reads_within n t ls\<close>: starting at cell index \<open>t\<close> of a buffer of \<open>n\<close> cells, no read of
  the lengths \<open>ls\<close> goes past the end of the storage. \<open>reads_fit\<close> asks this of every
  read but the last.
\<close>

fun reads_within :: "nat \<Rightarrow> nat \<Rightarrow> nat list \<Rightarrow> bool" where
  "reads_within n t [] = True"
| "reads_within n t (l # ls) = (t + l \<le> n \<and> reads_within n ((t + l) mod n) ls)"

fun reads_fit :: "nat \<Rightarrow> nat \<Rightarrow> nat list \<Rightarrow> bool" where
  "reads_fit n t [] = True"
| "reads_fit n t [l] = True"
| "reads_fit n t (l # l' # ls) = (t + l \<le> n \<and> reads_fit n ((t + l) mod n) (l' # ls))"

section \<open>Word arithmetic of the index computations\<close>

lemma pow16_le: "16 \<le> LENGTH('w::len) \<Longrightarrow> (2::nat) ^ 16 \<le> 2 ^ LENGTH('w)"
  by (rule power_increasing) simp_all

lemma unat_ucast_u16:
  "16 \<le> LENGTH('w::len) \<Longrightarrow> unat (ucast (x :: u16_t) :: 'w word) = unat x"
proof -
  assume w: "16 \<le> LENGTH('w)"
  have "unat x < 2 ^ 16" using unsigned_less [of x] by simp
  also have "(2::nat) ^ 16 \<le> 2 ^ LENGTH('w)" using w by (rule pow16_le)
  finally have "unat x < 2 ^ LENGTH('w)" .
  then show ?thesis
    by (simp add: unsigned_ucast_eq take_bit_nat_eq_self)
qed

lemma unat_ucast_down:
  "unat (x :: 'w::len word) < 2 ^ 16 \<Longrightarrow> unat (ucast x :: u16_t) = unat x"
  by (simp add: unsigned_ucast_eq take_bit_nat_eq_self)

lemma unat_mult_small:
  "unat (a :: 'w::len word) * unat b < 2 ^ LENGTH('w) \<Longrightarrow> unat (a * b) = unat a * unat b"
  by (simp add: unat_mult_lem)

lemma ucast_u16_less:
  "16 \<le> LENGTH('w::len) \<Longrightarrow> ((s :: 'w word) < ucast (x :: u16_t)) = (unat s < unat x)"
  by (simp add: word_less_nat_alt unat_ucast_u16)

lemma length_ring_window [simp]: "length (ring_window b m off n) = n"
  by (simp add: ring_window_def)

lemma nth_ring_window [simp]: "p < n \<Longrightarrow> ring_window b m off n ! p = b ! ((off + p) mod m)"
  by (simp add: ring_window_def)

lemma ring_window_split:
  "ring_window b m off (n1 + n2) = ring_window b m off n1 @ ring_window b m ((off + n1) mod m) n2"
proof (rule nth_equalityI)
  show "length (ring_window b m off (n1 + n2)) =
        length (ring_window b m off n1 @ ring_window b m ((off + n1) mod m) n2)"
    by simp
next
  fix i
  assume "i < length (ring_window b m off (n1 + n2))"
  then have i: "i < n1 + n2" by simp
  show "ring_window b m off (n1 + n2) ! i =
        (ring_window b m off n1 @ ring_window b m ((off + n1) mod m) n2) ! i"
  proof (cases "i < n1")
    case True
    then show ?thesis using i by (simp add: nth_append)
  next
    case False
    then have j: "i - n1 < n2" and e: "off + n1 + (i - n1) = off + i" using i by simp_all
    have "((off + n1) mod m + (i - n1)) mod m = (off + n1 + (i - n1)) mod m"
      by (rule mod_add_left_eq)
    then show ?thesis using False i j e by (simp add: nth_append)
  qed
qed

lemma memcpy_Some:
  "doff + n \<le> length dst \<Longrightarrow> soff + n \<le> length src \<Longrightarrow>
   memcpy dst doff src soff n = Some (take doff dst @ take n (drop soff src) @ drop (doff + n) dst)"
  by (simp add: memcpy_def)

lemma memcpy_length: "memcpy dst doff src soff n = Some r \<Longrightarrow> length r = length dst"
  by (auto simp: memcpy_def split: if_splits)

lemma memcpy_nth:
  "memcpy dst doff src soff n = Some r \<Longrightarrow> q < length dst \<Longrightarrow>
   r ! q = (if doff \<le> q \<and> q < doff + n then src ! (soff + (q - doff)) else dst ! q)"
proof -
  assume m: "memcpy dst doff src soff n = Some r" and q: "q < length dst"
  from m have b: "doff + n \<le> length dst" "soff + n \<le> length src"
    and r: "r = take doff dst @ take n (drop soff src) @ drop (doff + n) dst"
    by (auto simp: memcpy_def split: if_splits)
  consider "q < doff" | "doff \<le> q" "q < doff + n" | "doff + n \<le> q" by linarith
  then show ?thesis
  proof cases
    case 1
    then show ?thesis using b by (simp add: r nth_append)
  next
    case 2
    then have "q - doff < n" by simp
    then show ?thesis using 2 b by (simp add: r nth_append)
  next
    case 3
    then have "doff + n + (q - doff - n) = q" "\<not> q - doff < n" "\<not> q < doff" by simp_all
    then show ?thesis using 3 b q by (simp add: r nth_append)
  qed
qed

lemma unat_ucast_ucast_small:
  assumes w: "16 \<le> LENGTH('w::len)"
  shows "unat (ucast (x :: u16_t) * (c :: 'w word)) = (unat x * unat c) mod 2 ^ LENGTH('w)"
  by (simp add: unat_word_ariths unat_ucast_u16 [OF w])

lemma unat_ucast_mult:
  assumes w: "16 \<le> LENGTH('w::len)" and "unat x * unat c < 2 ^ LENGTH('w)"
  shows "unat (ucast (x :: u16_t) * (c :: 'w word)) = unat x * unat c"
  using assms by (simp add: unat_ucast_ucast_small)

lemma DataWatch_nat:
  fixes rb :: "('w::len) word RINGBUF_t"
  assumes w: "16 \<le> LENGTH('w)"
    and b: "buf rb = Some b"
    and sz: "unat (size_rb rb) * unat (cell_size rb) \<le> length b" "length b < 2 ^ LENGTH('w)"
    and s16: "unat (size_rb rb) < 2 ^ 16"
    and t: "tail rb < size_rb rb"
    and n: "unat len \<le> unat (size_rb rb)"
  shows "RingBuf_DataWatch (Some d) len rb =
    (if unat (size_rb rb) - unat (tail rb) < unat len
     then (case memcpy d 0 b (unat (tail rb) * unat (cell_size rb))
                        ((unat (size_rb rb) - unat (tail rb)) * unat (cell_size rb)) of
             None \<Rightarrow> None
           | Some d1 \<Rightarrow>
              (case memcpy d1 ((unat (size_rb rb) - unat (tail rb)) * unat (cell_size rb)) b 0
                     ((unat len - (unat (size_rb rb) - unat (tail rb))) * unat (cell_size rb)) of
                 None \<Rightarrow> None
               | Some d2 \<Rightarrow> Some (RINGBUF_OK, Some d2, rb)))
     else (case memcpy d 0 b (unat (tail rb) * unat (cell_size rb)) (unat len * unat (cell_size rb)) of
             None \<Rightarrow> None
           | Some d2 \<Rightarrow> Some (RINGBUF_OK, Some d2, rb)))"
proof -
  let ?N = "unat (size_rb rb)" and ?t = "unat (tail rb)" and ?c = "unat (cell_size rb)"
  let ?n = "unat len"
  have tN: "?t < ?N" using t by (simp add: word_less_nat_alt)
  have no_ovf: "\<not> size_rb rb < ucast len"
    using n by (simp add: ucast_u16_less [OF w])
  have bound: "\<And>k. k \<le> ?N \<Longrightarrow> k * ?c < 2 ^ LENGTH('w)"
  proof -
    fix k assume "k \<le> ?N"
    then have "k * ?c \<le> ?N * ?c" by (rule mult_le_mono1)
    then show "k * ?c < 2 ^ LENGTH('w)" using sz by linarith
  qed
  have sub: "unat (size_rb rb - tail rb) = ?N - ?t"
    using t by (simp add: unat_sub)
  have space: "unat (ucast (size_rb rb - tail rb) :: u16_t) = ?N - ?t"
    using s16 by (simp add: unat_ucast_down sub)
  have loc: "unat (ucast (tail rb) :: u16_t) = ?t"
    using s16 tN by (simp add: unat_ucast_down)
  have cmp: "((ucast (size_rb rb - tail rb) :: u16_t) < len) = (?N - ?t < ?n)"
    by (simp add: word_less_nat_alt space)
  have m_space: "unat (ucast (ucast (size_rb rb - tail rb) :: u16_t) * cell_size rb) = (?N - ?t) * ?c"
    by (rule trans [OF unat_ucast_mult [OF w]]) (simp_all add: space bound)
  have m_loc: "unat (ucast (ucast (tail rb) :: u16_t) * cell_size rb) = ?t * ?c"
    using tN by (intro trans [OF unat_ucast_mult [OF w]]) (simp_all add: loc bound)
  have m_len: "unat (ucast len * cell_size rb) = ?n * ?c"
    using n by (intro trans [OF unat_ucast_mult [OF w]]) (simp_all add: bound)
  have m_rest: "?N - ?t < ?n \<Longrightarrow>
      unat (ucast (len - (ucast (size_rb rb - tail rb) :: u16_t)) * cell_size rb) = (?n - (?N - ?t)) * ?c"
  proof -
    assume lt: "?N - ?t < ?n"
    then have "(ucast (size_rb rb - tail rb) :: u16_t) \<le> len"
      by (simp add: word_le_nat_alt space)
    then have "unat (len - (ucast (size_rb rb - tail rb) :: u16_t)) = ?n - (?N - ?t)"
      by (simp add: unat_sub space)
    then show ?thesis
      using n by (intro trans [OF unat_ucast_mult [OF w]]) (simp_all add: bound)
  qed
  show ?thesis
  proof (cases "?N - ?t < ?n")
    case True
    then show ?thesis
      using no_ovf b
      by (simp add: RingBuf_DataWatch_def Let_def cmp m_space m_loc m_rest split: option.splits)
  next
    case False
    then show ?thesis
      using no_ovf b
      by (simp add: RingBuf_DataWatch_def Let_def cmp m_loc m_len split: option.splits)
  qed
qed

lemma mod_wrap_once: "m \<le> x \<Longrightarrow> x < 2 * m \<Longrightarrow> x mod m = x - (m::nat)"
  by (metis le_add_diff_inverse2 less_diff_conv2 mod_add_self2 mod_less mult_2)

lemma copy_out_nowrap:
  assumes "off + k \<le> m" "m \<le> length b" "k \<le> length d"
  shows "memcpy d 0 b off k = Some (ring_window b m off k @ drop k d)"
proof -
  have "take k (drop off b) = ring_window b m off k"
  proof (rule nth_equalityI)
    show "length (take k (drop off b)) = length (ring_window b m off k)"
      using assms by simp
  next
    fix i assume "i < length (take k (drop off b))"
    then have i: "i < k" by simp
    then have "off + i < m" using assms by simp
    then show "take k (drop off b) ! i = ring_window b m off k ! i"
      using i assms by simp
  qed
  then show ?thesis using assms by (simp add: memcpy_def)
qed

lemma copy_out_wrap:
  assumes "off \<le> m" "m - off \<le> k" "k \<le> m" "m \<le> length b" "k \<le> length d"
  shows "(case memcpy d 0 b off (m - off) of
            None \<Rightarrow> None
          | Some d1 \<Rightarrow> memcpy d1 (m - off) b 0 (k - (m - off)))
         = Some (ring_window b m off k @ drop k d)"
proof -
  let ?d1 = "take (m - off) (drop off b) @ drop (m - off) d"
  have 1: "memcpy d 0 b off (m - off) = Some ?d1"
    using assms by (simp add: memcpy_def)
  have l1: "length ?d1 = length d" using assms by simp
  let ?d2 = "take (m - off) ?d1 @ take (k - (m - off)) b @ drop k ?d1"
  have 2: "memcpy ?d1 (m - off) b 0 (k - (m - off)) = Some ?d2"
    using assms l1 by (simp add: memcpy_def)
  have "?d2 = ring_window b m off k @ drop k d"
  proof (rule nth_equalityI)
    show "length ?d2 = length (ring_window b m off k @ drop k d)"
      using assms by simp
  next
    fix i assume "i < length ?d2"
    then have i: "i < length d" using assms by simp
    consider "i < m - off" | "m - off \<le> i" "i < k" | "k \<le> i" by linarith
    then show "?d2 ! i = (ring_window b m off k @ drop k d) ! i"
    proof cases
      case 1
      then have "off + i < m" by simp
      then show ?thesis using 1 assms i by (simp add: nth_append)
    next
      case 2
      then have "m \<le> off + i" "off + i < 2 * m" using assms by simp_all
      then have "(off + i) mod m = off + i - m" by (rule mod_wrap_once)
      moreover have "off + i - m = i - (m - off)" using 2 assms by simp
      moreover have "i + off - m < k + off - m" using 2 assms by linarith
      ultimately show ?thesis using 2 assms i by (simp add: nth_append)
    next
      case 3
      then have "\<not> i + off - m < k + off - m" "\<not> i < m - off" using assms by linarith+
      then show ?thesis using 3 assms i by (simp add: nth_append)
    qed
  qed
  then show ?thesis by (simp only: 1 2 option.case)
qed

lemma ring_window_cong:
  assumes "\<And>p. p < n \<Longrightarrow> b1 ! ((off1 + p) mod m1) = b2 ! ((off2 + p) mod m2)"
  shows "ring_window b1 m1 off1 n = ring_window b2 m2 off2 n"
  by (rule nth_equalityI) (simp_all add: assms)

lemma ring_window_eq_take:
  assumes "n \<le> length xs" "\<And>p. p < n \<Longrightarrow> b ! ((off + p) mod m) = xs ! p"
  shows "ring_window b m off n = take n xs"
  by (rule nth_equalityI) (simp_all add: assms)

lemma copy_in_nowrap:
  assumes "off + k \<le> m" "m \<le> length b" "k \<le> length input"
  shows "\<exists>b'. memcpy b off input 0 k = Some b' \<and> length b' = length b
           \<and> ring_window b' m off k = take k input
           \<and> ring_window b' m ((off + k) mod m) (m - k) = ring_window b m ((off + k) mod m) (m - k)"
proof -
  obtain b' where m1: "memcpy b off input 0 k = Some b'"
    using assms by (simp add: memcpy_def)
  have nth: "\<And>q. q < length b \<Longrightarrow>
      b' ! q = (if off \<le> q \<and> q < off + k then input ! (q - off) else b ! q)"
    using memcpy_nth [OF m1] by simp
  have f1: "ring_window b' m off k = take k input"
  proof (rule ring_window_eq_take)
    show "k \<le> length input" by fact
  next
    fix p assume p: "p < k"
    then have "off + p < m" using assms by simp
    then show "b' ! ((off + p) mod m) = input ! p"
      using p assms by (simp add: nth)
  qed
  have f2: "ring_window b' m ((off + k) mod m) (m - k) = ring_window b m ((off + k) mod m) (m - k)"
  proof (rule ring_window_cong)
    fix p assume p: "p < m - k"
    then have m0: "0 < m" by simp
    let ?q = "((off + k) mod m + p) mod m"
    have q: "?q = (off + k + p) mod m" by (rule mod_add_left_eq)
    have qm: "?q < m" using m0 by simp
    have "\<not> (off \<le> ?q \<and> ?q < off + k)"
    proof (cases "off + k + p < m")
      case True
      then show ?thesis by (simp add: q)
    next
      case False
      then have "m \<le> off + k + p" "off + k + p < 2 * m" using p assms by simp_all
      then have "(off + k + p) mod m = off + k + p - m" by (rule mod_wrap_once)
      moreover have "\<not> off \<le> off + k + p - m" using p False by linarith
      ultimately show ?thesis by (simp only: q) simp
    qed
    moreover have "?q < length b" using qm assms by linarith
    ultimately show "b' ! ?q = b ! ?q" using nth [of ?q] by (simp only: if_False)
  qed
  show ?thesis using m1 f1 f2 memcpy_length [OF m1] by simp
qed

lemma copy_in_wrap:
  assumes "off \<le> m" "m - off \<le> k" "k \<le> m" "m \<le> length b" "k \<le> length input"
  shows "\<exists>b'. (case memcpy b off input 0 (m - off) of
                 None \<Rightarrow> None
               | Some b1 \<Rightarrow> memcpy b1 0 input (m - off) (k - (m - off))) = Some b'
           \<and> length b' = length b
           \<and> ring_window b' m off k = take k input
           \<and> ring_window b' m ((off + k) mod m) (m - k) = ring_window b m ((off + k) mod m) (m - k)"
proof -
  obtain b1 where m1: "memcpy b off input 0 (m - off) = Some b1"
    using assms by (simp add: memcpy_def)
  have l1: "length b1 = length b" by (rule memcpy_length [OF m1])
  have "0 + (k - (m - off)) \<le> length b1" "m - off + (k - (m - off)) \<le> length input"
    using assms l1 by linarith+
  then obtain b' where m2: "memcpy b1 0 input (m - off) (k - (m - off)) = Some b'"
    using memcpy_Some by blast
  have l2: "length b' = length b" using memcpy_length [OF m2] l1 by simp
  have nth1: "\<And>q. q < length b \<Longrightarrow>
      b1 ! q = (if off \<le> q \<and> q < m then input ! (q - off) else b ! q)"
    using memcpy_nth [OF m1] assms by simp
  have nth2: "\<And>q. q < length b \<Longrightarrow>
      b' ! q = (if q < k - (m - off) then input ! (m - off + q) else b1 ! q)"
    using memcpy_nth [OF m2] l1 by simp
  have f1: "ring_window b' m off k = take k input"
  proof (rule ring_window_eq_take)
    show "k \<le> length input" by fact
  next
    fix p assume p: "p < k"
    show "b' ! ((off + p) mod m) = input ! p"
    proof (cases "off + p < m")
      case True
      then have "\<not> off + p < k - (m - off)" using assms by linarith
      then show ?thesis using True assms by (simp add: nth1 nth2)
    next
      case False
      then have "m \<le> off + p" "off + p < 2 * m" using p assms by simp_all
      then have e: "(off + p) mod m = off + p - m" by (rule mod_wrap_once)
      have "off + p - m < k - (m - off)" "m - off + (off + p - m) = p" "off + p - m < length b"
        using False p assms by linarith+
      then show ?thesis by (simp add: e nth2)
    qed
  qed
  have f2: "ring_window b' m ((off + k) mod m) (m - k) = ring_window b m ((off + k) mod m) (m - k)"
  proof (rule ring_window_cong)
    fix p assume p: "p < m - k"
    let ?q = "((off + k) mod m + p) mod m"
    have q: "?q = (off + k + p) mod m" by (rule mod_add_left_eq)
    have "m \<le> off + k + p" "off + k + p < 2 * m" using p assms by linarith+
    then have e: "(off + k + p) mod m = off + k + p - m" by (rule mod_wrap_once)
    have "\<not> off + k + p - m < k - (m - off)" "\<not> off \<le> off + k + p - m" "off + k + p - m < length b"
      using p assms by linarith+
    then show "b' ! ?q = b ! ?q" by (simp add: q e nth1 nth2)
  qed
  show ?thesis using m1 m2 l2 f1 f2 by simp
qed

lemma word_eq_of_nat:
  "unat (x :: 'w::len word) = k \<Longrightarrow> x = of_nat k"
  by auto

lemma DataPut_nat:
  fixes rb :: "('w::len) word RINGBUF_t"
  assumes w: "16 \<le> LENGTH('w)"
    and b: "buf rb = Some b"
    and sz: "unat (size_rb rb) * unat (cell_size rb) \<le> length b" "length b < 2 ^ LENGTH('w)"
    and h: "head rb < size_rb rb"
    and n: "unat len \<le> unat (size_rb rb)"
  shows "RingBuf_DataPut input len rb =
    (if unat (size_rb rb) - unat (head rb) < unat len
     then (case memcpy b (unat (head rb) * unat (cell_size rb)) input 0
                        ((unat (size_rb rb) - unat (head rb)) * unat (cell_size rb)) of
             None \<Rightarrow> None
           | Some b1 \<Rightarrow>
              (case memcpy b1 0 input ((unat (size_rb rb) - unat (head rb)) * unat (cell_size rb))
                     ((unat len - (unat (size_rb rb) - unat (head rb))) * unat (cell_size rb)) of
                 None \<Rightarrow> None
               | Some b2 \<Rightarrow>
                   Some (RINGBUF_OK, rb\<lparr>buf := Some b2,
                      head := of_nat ((unat (head rb) + unat len) mod unat (size_rb rb))\<rparr>)))
     else (case memcpy b (unat (head rb) * unat (cell_size rb)) input 0
                        (unat len * unat (cell_size rb)) of
             None \<Rightarrow> None
           | Some b2 \<Rightarrow>
               Some (RINGBUF_OK, rb\<lparr>buf := Some b2,
                  head := of_nat ((unat (head rb) + unat len) mod unat (size_rb rb))\<rparr>)))"
proof -
  let ?N = "unat (size_rb rb)" and ?h = "unat (head rb)" and ?c = "unat (cell_size rb)"
  let ?n = "unat len"
  let ?space = "size_rb rb - head rb"
  have hN: "?h < ?N" using h by (simp add: word_less_nat_alt)
  have N: "?N < 2 ^ LENGTH('w)" by simp
  have no_ovf: "\<not> size_rb rb < ucast len"
    using n by (simp add: ucast_u16_less [OF w])
  have bound: "\<And>k. k \<le> ?N \<Longrightarrow> k * ?c < 2 ^ LENGTH('w)"
  proof -
    fix k assume "k \<le> ?N"
    then have "k * ?c \<le> ?N * ?c" by (rule mult_le_mono1)
    then show "k * ?c < 2 ^ LENGTH('w)" using sz by linarith
  qed
  have space: "unat ?space = ?N - ?h"
    using h by (simp add: unat_sub)
  have cmp: "(?space < ucast len) = (?N - ?h < ?n)"
    by (simp add: ucast_u16_less [OF w] space)
  have m_head: "unat (head rb * cell_size rb) = ?h * ?c"
    using hN by (intro unat_mult_small bound) simp
  have m_space: "unat (?space * cell_size rb) = (?N - ?h) * ?c"
    using bound [of "?N - ?h"] by (simp add: unat_mult_small space)
  have m_len: "unat (ucast len * cell_size rb) = ?n * ?c"
    using n by (intro trans [OF unat_ucast_mult [OF w]]) (simp_all add: bound)
  show ?thesis
  proof (cases "?N - ?h < ?n")
    case True
    have le: "?space \<le> ucast len"
      using True by (simp add: word_le_nat_alt space unat_ucast_u16 [OF w])
    have d: "unat (ucast len - ?space) = ?n - (?N - ?h)"
      using le by (simp add: unat_sub space unat_ucast_u16 [OF w])
    have "?n < 2 ^ 16" using unsigned_less [of len] by simp
    then have l1: "unat (ucast (ucast len - ?space) :: u16_t) = ?n - (?N - ?h)"
      by (simp add: unat_ucast_down d)
    have m_rest: "unat (ucast (ucast (ucast len - ?space) :: u16_t) * cell_size rb)
                   = (?n - (?N - ?h)) * ?c"
      using n by (intro trans [OF unat_ucast_mult [OF w]]) (simp_all add: l1 bound)
    have u2: "unat (ucast (ucast (ucast len - ?space) :: u16_t) :: 'w word) = ?n - (?N - ?h)"
      by (simp add: unat_ucast_u16 [OF w] l1)
    have lt: "\<not> size_rb rb \<le> ucast (ucast (ucast len - ?space) :: u16_t)"
      using hN n by (simp add: word_le_nat_alt u2)
    have "?N \<le> ?h + ?n" "?h + ?n < 2 * ?N" using True hN n by linarith+
    then have "(?h + ?n) mod ?N = ?h + ?n - ?N" by (rule mod_wrap_once)
    then have "(?h + ?n) mod ?N = ?n - (?N - ?h)" using True hN by simp
    then have hd: "ucast (ucast (ucast len - ?space) :: u16_t) = (of_nat ((?h + ?n) mod ?N) :: 'w word)"
      using u2 by (intro word_eq_of_nat) simp
    show ?thesis
      using True no_ovf b
      by (simp add: RingBuf_DataPut_def Let_def cmp m_head m_space hd m_rest [unfolded hd]
            lt [unfolded hd] split: option.splits)
  next
    case False
    then have hn: "?h + ?n \<le> ?N" using hN by simp
    then have "?h + ?n < 2 ^ LENGTH('w)" using N by linarith
    then have u: "unat (head rb + ucast len) = ?h + ?n"
      by (simp add: unat_add_lem [THEN iffD1] unat_ucast_u16 [OF w])
    have ge: "(size_rb rb \<le> head rb + ucast len) = (?h + ?n = ?N)"
      using hn by (auto simp add: word_le_nat_alt u)
    have hd: "(if size_rb rb \<le> head rb + ucast len then 0 else head rb + ucast len)
              = (of_nat ((?h + ?n) mod ?N) :: 'w word)"
    proof (cases "?h + ?n = ?N")
      case True
      then show ?thesis using ge by simp
    next
      case False
      then have "?h + ?n < ?N" using hn by simp
      then have "(?h + ?n) mod ?N = ?h + ?n" by simp
      then have "head rb + ucast len = (of_nat ((?h + ?n) mod ?N) :: 'w word)"
        using u by (intro word_eq_of_nat) simp
      then show ?thesis using ge False by simp
    qed
    show ?thesis
      using False no_ovf b hd
      by (simp add: RingBuf_DataPut_def Let_def cmp m_head m_len split: option.splits)
  qed
qed

section \<open>The data operations on a valid buffer\<close>

lemma rb_validD:
  fixes rb :: "('w::len) word RINGBUF_t"
  assumes "rb_valid rb"
  obtains b where "buf rb = Some b" "storage rb = b"
    "unat (size_rb rb) * unat (cell_size rb) \<le> length b" "length b < 2 ^ LENGTH('w)"
    "unat (size_rb rb) < 2 ^ 16" "head rb < size_rb rb" "tail rb < size_rb rb"
    "unat (head rb) < unat (size_rb rb)" "unat (tail rb) < unat (size_rb rb)"
  using assms by (auto simp: rb_valid_def storage_def word_less_nat_alt split: option.splits)

lemma DataWatch_ok:
  fixes rb :: "('w::len) word RINGBUF_t"
  assumes w: "16 \<le> LENGTH('w)" and v: "rb_valid rb"
    and n: "unat len \<le> unat (size_rb rb)"
    and d: "unat len * unat (cell_size rb) \<le> length d"
  shows "RingBuf_DataWatch (Some d) len rb =
           Some (RINGBUF_OK,
                 Some (ring_cells rb (unat (tail rb)) (unat len)
                       @ drop (unat len * unat (cell_size rb)) d),
                 rb)"
proof -
  let ?N = "unat (size_rb rb)" and ?t = "unat (tail rb)" and ?c = "unat (cell_size rb)"
  let ?n = "unat len"
  from v obtain b where b: "buf rb = Some b" "storage rb = b"
    and sz: "?N * ?c \<le> length b" "length b < 2 ^ LENGTH('w)"
    and s16: "?N < 2 ^ 16" and t: "tail rb < size_rb rb" and tN: "?t < ?N"
    by (rule rb_validD)
  note nat = DataWatch_nat [OF w b(1) sz s16 t n, of d]
  have rc: "ring_cells rb ?t ?n = ring_window b (?N * ?c) (?t * ?c) (?n * ?c)"
    by (simp add: ring_cells_def b)
  have k: "?n * ?c \<le> ?N * ?c" using n by (rule mult_le_mono1)
  show ?thesis
  proof (cases "?N - ?t < ?n")
    case True
    have off: "?t * ?c \<le> ?N * ?c" using tN by (simp add: mult_le_mono1)
    have e1: "(?N - ?t) * ?c = ?N * ?c - ?t * ?c" by (simp add: diff_mult_distrib)
    have e2: "(?n - (?N - ?t)) * ?c = ?n * ?c - (?N * ?c - ?t * ?c)"
      by (simp add: diff_mult_distrib)
    have "(?N - ?t) * ?c \<le> ?n * ?c" using True by (simp add: mult_le_mono1)
    then have le: "?N * ?c - ?t * ?c \<le> ?n * ?c" by (simp only: e1)
    from copy_out_wrap [OF off le k sz(1) d]
    obtain d1 where "memcpy d 0 b (?t * ?c) (?N * ?c - ?t * ?c) = Some d1"
      and "memcpy d1 (?N * ?c - ?t * ?c) b 0 (?n * ?c - (?N * ?c - ?t * ?c))
           = Some (ring_window b (?N * ?c) (?t * ?c) (?n * ?c) @ drop (?n * ?c) d)"
      by (auto split: option.splits)
    then show ?thesis
      using True by (simp add: nat rc e1 e2)
  next
    case False
    then have "?t + ?n \<le> ?N" using tN by simp
    then have "(?t + ?n) * ?c \<le> ?N * ?c" by (rule mult_le_mono1)
    then have fit: "?t * ?c + ?n * ?c \<le> ?N * ?c" by (simp add: add_mult_distrib)
    note copy_out_nowrap [OF fit sz(1) d]
    then show ?thesis
      using False by (simp add: nat rc)
  qed
qed

lemma mod_mult_cells: "((a + b) mod n) * c = (a * c + b * c) mod (n * (c::nat))"
  by (simp only: mult_mod_left add_mult_distrib)

lemma DataPut_bytes:
  fixes rb :: "('w::len) word RINGBUF_t"
  assumes w: "16 \<le> LENGTH('w)" and v: "rb_valid rb"
    and n: "unat len \<le> unat (size_rb rb)"
    and i: "unat len * unat (cell_size rb) \<le> length input"
  shows "\<exists>b'. RingBuf_DataPut input len rb =
               Some (RINGBUF_OK, rb\<lparr>buf := Some b',
                  head := of_nat ((unat (head rb) + unat len) mod unat (size_rb rb))\<rparr>)
           \<and> length b' = length (storage rb)
           \<and> ring_window b' (unat (size_rb rb) * unat (cell_size rb))
                (unat (head rb) * unat (cell_size rb)) (unat len * unat (cell_size rb))
               = take (unat len * unat (cell_size rb)) input
           \<and> ring_window b' (unat (size_rb rb) * unat (cell_size rb))
                (((unat (head rb) + unat len) mod unat (size_rb rb)) * unat (cell_size rb))
                ((unat (size_rb rb) - unat len) * unat (cell_size rb))
               = ring_window (storage rb) (unat (size_rb rb) * unat (cell_size rb))
                (((unat (head rb) + unat len) mod unat (size_rb rb)) * unat (cell_size rb))
                ((unat (size_rb rb) - unat len) * unat (cell_size rb))"
proof -
  let ?N = "unat (size_rb rb)" and ?h = "unat (head rb)" and ?c = "unat (cell_size rb)"
  let ?n = "unat len"
  from v obtain b where b: "buf rb = Some b" "storage rb = b"
    and sz: "?N * ?c \<le> length b" "length b < 2 ^ LENGTH('w)"
    and h: "head rb < size_rb rb" and hN: "?h < ?N"
    by (rule rb_validD)
  note nat = DataPut_nat [OF w b(1) sz h n, of input]
  have k: "?n * ?c \<le> ?N * ?c" using n by (rule mult_le_mono1)
  have md: "((?h + ?n) mod ?N) * ?c = (?h * ?c + ?n * ?c) mod (?N * ?c)"
    by (rule mod_mult_cells)
  have rest: "(?N - ?n) * ?c = ?N * ?c - ?n * ?c" by (simp add: diff_mult_distrib)
  show ?thesis
  proof (cases "?N - ?h < ?n")
    case True
    have off: "?h * ?c \<le> ?N * ?c" using hN by (simp add: mult_le_mono1)
    have e1: "(?N - ?h) * ?c = ?N * ?c - ?h * ?c" by (simp add: diff_mult_distrib)
    have e2: "(?n - (?N - ?h)) * ?c = ?n * ?c - (?N * ?c - ?h * ?c)"
      by (simp add: diff_mult_distrib)
    have "(?N - ?h) * ?c \<le> ?n * ?c" using True by (simp add: mult_le_mono1)
    then have le: "?N * ?c - ?h * ?c \<le> ?n * ?c" by (simp only: e1)
    from copy_in_wrap [OF off le k sz(1) i]
    obtain b1 b' where "memcpy b (?h * ?c) input 0 (?N * ?c - ?h * ?c) = Some b1"
      and "memcpy b1 0 input (?N * ?c - ?h * ?c) (?n * ?c - (?N * ?c - ?h * ?c)) = Some b'"
      and r: "length b' = length b"
        "ring_window b' (?N * ?c) (?h * ?c) (?n * ?c) = take (?n * ?c) input"
        "ring_window b' (?N * ?c) ((?h * ?c + ?n * ?c) mod (?N * ?c)) (?N * ?c - ?n * ?c)
          = ring_window b (?N * ?c) ((?h * ?c + ?n * ?c) mod (?N * ?c)) (?N * ?c - ?n * ?c)"
      by (auto split: option.splits)
    then have "RingBuf_DataPut input len rb =
               Some (RINGBUF_OK, rb\<lparr>buf := Some b', head := of_nat ((?h + ?n) mod ?N)\<rparr>)"
      using True by (simp add: nat e1 e2)
    then show ?thesis using r by (auto simp only: b md rest)
  next
    case False
    then have "?h + ?n \<le> ?N" using hN by simp
    then have "(?h + ?n) * ?c \<le> ?N * ?c" by (rule mult_le_mono1)
    then have fit: "?h * ?c + ?n * ?c \<le> ?N * ?c" by (simp add: add_mult_distrib)
    from copy_in_nowrap [OF fit sz(1) i]
    obtain b' where "memcpy b (?h * ?c) input 0 (?n * ?c) = Some b'"
      and r: "length b' = length b"
        "ring_window b' (?N * ?c) (?h * ?c) (?n * ?c) = take (?n * ?c) input"
        "ring_window b' (?N * ?c) ((?h * ?c + ?n * ?c) mod (?N * ?c)) (?N * ?c - ?n * ?c)
          = ring_window b (?N * ?c) ((?h * ?c + ?n * ?c) mod (?N * ?c)) (?N * ?c - ?n * ?c)"
      by blast
    then have "RingBuf_DataPut input len rb =
               Some (RINGBUF_OK, rb\<lparr>buf := Some b', head := of_nat ((?h + ?n) mod ?N)\<rparr>)"
      using False by (simp add: nat)
    then show ?thesis using r by (auto simp only: b md rest)
  qed
qed

lemma unat_of_nat_small:
  "k < 2 ^ LENGTH('w::len) \<Longrightarrow> unat (of_nat k :: 'w word) = k"
  by (simp add: unat_of_nat)

lemma ring_cells_upd [simp]:
  "ring_cells (rb\<lparr>head := h\<rparr>) = ring_cells rb"
  "ring_cells (rb\<lparr>tail := t\<rparr>) = ring_cells rb"
  by (simp_all add: ring_cells_def storage_def fun_eq_iff)

lemma DataPut_ok:
  fixes rb :: "('w::len) word RINGBUF_t"
  assumes w: "16 \<le> LENGTH('w)" and v: "rb_valid rb"
    and n: "unat len \<le> unat (size_rb rb)"
    and i: "unat len * unat (cell_size rb) \<le> length input"
  shows "\<exists>rb'. RingBuf_DataPut input len rb = Some (RINGBUF_OK, rb')
           \<and> rb_valid rb' \<and> tail rb' = tail rb
           \<and> size_rb rb' = size_rb rb \<and> cell_size rb' = cell_size rb
           \<and> unat (head rb') = (unat (head rb) + unat len) mod unat (size_rb rb)
           \<and> ring_cells rb' (unat (head rb)) (unat len)
               = take (unat len * unat (cell_size rb)) input
           \<and> ring_cells rb' ((unat (head rb) + unat len) mod unat (size_rb rb))
                 (unat (size_rb rb) - unat len)
               = ring_cells rb ((unat (head rb) + unat len) mod unat (size_rb rb))
                 (unat (size_rb rb) - unat len)"
proof -
  let ?N = "unat (size_rb rb)" and ?h = "unat (head rb)" and ?c = "unat (cell_size rb)"
  let ?n = "unat len"
  let ?h' = "(?h + ?n) mod ?N"
  from v obtain b where b: "buf rb = Some b" "storage rb = b"
    and sz: "?N * ?c \<le> length b" "length b < 2 ^ LENGTH('w)"
    and s16: "?N < 2 ^ 16" and t: "tail rb < size_rb rb" and hN: "?h < ?N"
    by (rule rb_validD)
  from DataPut_bytes [OF w v n i] obtain b' where
    p: "RingBuf_DataPut input len rb =
          Some (RINGBUF_OK, rb\<lparr>buf := Some b', head := of_nat ?h'\<rparr>)"
    and l: "length b' = length b"
    and r1: "ring_window b' (?N * ?c) (?h * ?c) (?n * ?c) = take (?n * ?c) input"
    and r2: "ring_window b' (?N * ?c) (?h' * ?c) ((?N - ?n) * ?c)
             = ring_window b (?N * ?c) (?h' * ?c) ((?N - ?n) * ?c)"
    unfolding b by blast
  let ?rb' = "rb\<lparr>buf := Some b', head := of_nat ?h'\<rparr>"
  have h'N: "?h' < ?N" using hN by simp
  moreover have "?N < 2 ^ LENGTH('w)" by simp
  ultimately have "?h' < 2 ^ LENGTH('w)" by (rule less_trans)
  then have uh: "unat (of_nat ?h' :: 'w word) = ?h'" by (rule unat_of_nat_small)
  have lt: "(of_nat ?h' :: 'w word) < size_rb rb"
    using h'N by (simp add: word_less_nat_alt uh)
  have val: "rb_valid ?rb'"
    using sz s16 t lt l by (simp add: rb_valid_def)
  have "ring_cells ?rb' ?h ?n = take (?n * ?c) input"
    using r1 by (simp add: ring_cells_def storage_def)
  moreover have "ring_cells ?rb' ?h' (?N - ?n) = ring_cells rb ?h' (?N - ?n)"
    using r2 by (simp add: ring_cells_def storage_def b)
  ultimately show ?thesis
    using p val uh by (intro exI [of _ ?rb']) simp
qed

lemma DataRead_ok:
  fixes rb :: "('w::len) word RINGBUF_t"
  assumes w: "16 \<le> LENGTH('w)" and v: "rb_valid rb"
    and n: "unat len \<le> unat (size_rb rb)"
    and d: "unat len * unat (cell_size rb) \<le> length d"
  shows "\<exists>rb'. RingBuf_DataRead (Some d) len rb =
               Some (RINGBUF_OK,
                     Some (ring_cells rb (unat (tail rb)) (unat len)
                           @ drop (unat len * unat (cell_size rb)) d),
                     rb')
           \<and> rb_valid rb' \<and> head rb' = head rb \<and> buf rb' = buf rb
           \<and> size_rb rb' = size_rb rb \<and> cell_size rb' = cell_size rb
           \<and> (unat (tail rb) + unat len \<le> unat (size_rb rb) \<longrightarrow>
                unat (tail rb') = (unat (tail rb) + unat len) mod unat (size_rb rb))"
proof -
  let ?N = "unat (size_rb rb)" and ?t = "unat (tail rb)" and ?c = "unat (cell_size rb)"
  let ?n = "unat len"
  let ?s = "tail rb + ucast len"
  let ?t' = "if size_rb rb \<le> ?s then 0 else ?s"
  let ?rb' = "rb\<lparr>tail := ?t'\<rparr>"
  from v obtain b where b: "buf rb = Some b" "storage rb = b"
    and sz: "?N * ?c \<le> length b" "length b < 2 ^ LENGTH('w)"
    and s16: "?N < 2 ^ 16" and h: "head rb < size_rb rb" and tN: "?t < ?N"
    by (rule rb_validD)
  have r: "RingBuf_DataRead (Some d) len rb =
             Some (RINGBUF_OK, Some (ring_cells rb ?t ?n @ drop (?n * ?c) d), ?rb')"
    using b by (simp add: RingBuf_DataRead_def DataWatch_ok [OF w v n d] Let_def)
  have pos: "0 < size_rb rb" using tN by (simp add: word_less_nat_alt)
  have lt: "?t' < size_rb rb" using pos by (simp add: not_le)
  have val: "rb_valid ?rb'"
    using b sz s16 h lt by (simp add: rb_valid_def)
  have fit: "unat ?t' = (?t + ?n) mod ?N" if f: "?t + ?n \<le> ?N"
  proof -
    have "?N < 2 ^ LENGTH('w)" by simp
    then have "?t + ?n < 2 ^ LENGTH('w)" using f by linarith
    then have u: "unat ?s = ?t + ?n"
      by (simp add: unat_add_lem [THEN iffD1] unat_ucast_u16 [OF w])
    show ?thesis
    proof (cases "?t + ?n = ?N")
      case True
      then show ?thesis by (simp add: word_le_nat_alt u)
    next
      case False
      then have "?t + ?n < ?N" using f by simp
      then show ?thesis by (simp add: word_le_nat_alt u)
    qed
  qed
  show ?thesis
    using r val fit by (intro exI [of _ ?rb']) simp
qed

lemma Available_ok:
  fixes rb :: "('w::len) word RINGBUF_t"
  assumes v: "rb_valid rb"
  shows "\<exists>a. RingBuf_Available l rb = (RINGBUF_OK, a, rb)
           \<and> unat a = (unat (head rb) + unat (size_rb rb) - unat (tail rb)) mod unat (size_rb rb)"
proof -
  let ?N = "unat (size_rb rb)" and ?t = "unat (tail rb)" and ?h = "unat (head rb)"
  from v obtain b where b: "buf rb = Some b"
    and s16: "?N < 2 ^ 16" and h: "head rb < size_rb rb" and t: "tail rb < size_rb rb"
    and hN: "?h < ?N" and tN: "?t < ?N"
    by (rule rb_validD)
  show ?thesis
  proof (cases "head rb < tail rb")
    case True
    then have ht: "?h < ?t" by (simp add: word_less_nat_alt)
    have st: "unat (size_rb rb - tail rb) = ?N - ?t" using t by (simp add: unat_sub)
    have "?N < 2 ^ LENGTH('w)" by simp
    then have "?N - ?t + ?h < 2 ^ LENGTH('w)"
      using ht tN by linarith
    then have u: "unat (size_rb rb - tail rb + head rb) = ?N - ?t + ?h"
      using st by (simp add: unat_add_lem [THEN iffD1])
    have "?N - ?t + ?h < 2 ^ 16" using ht tN s16 by linarith
    then have a: "unat (ucast (size_rb rb - tail rb + head rb) :: u16_t) = ?N - ?t + ?h"
      by (simp add: unat_ucast_down u)
    have "?h + ?N - ?t < ?N" using ht tN by linarith
    then have "(?h + ?N - ?t) mod ?N = ?N - ?t + ?h" using tN by simp
    then show ?thesis using True b a by (simp add: RingBuf_Available_def)
  next
    case False
    then have th: "?t \<le> ?h" by (simp add: word_less_nat_alt)
    then have u: "unat (head rb - tail rb) = ?h - ?t" by (simp add: unat_sub word_le_nat_alt)
    have "?h - ?t < 2 ^ 16" using hN s16 by linarith
    then have a: "unat (ucast (head rb - tail rb) :: u16_t) = ?h - ?t"
      by (simp add: unat_ucast_down u)
    have "?N \<le> ?h + ?N - ?t" "?h + ?N - ?t < 2 * ?N" using th hN tN by linarith+
    then have "(?h + ?N - ?t) mod ?N = ?h + ?N - ?t - ?N" by (rule mod_wrap_once)
    then have "(?h + ?N - ?t) mod ?N = ?h - ?t" using th by simp
    then show ?thesis using False b a by (simp add: RingBuf_Available_def)
  qed
qed

text \<open>
  A read that goes past the end of the storage delivers the cells in ring order but
  stores 0 in \<open>tail\<close>, whatever the length.
\<close>

lemma DataRead_crossing_resets_tail:
  fixes rb :: "('w::len) word RINGBUF_t"
  assumes w: "16 \<le> LENGTH('w)" and v: "rb_valid rb"
    and n: "unat len \<le> unat (size_rb rb)"
    and d: "unat len * unat (cell_size rb) \<le> length d"
    and cross: "unat (size_rb rb) < unat (tail rb) + unat len"
    and fits: "unat (tail rb) + unat len < 2 ^ LENGTH('w)"
  shows "RingBuf_DataRead (Some d) len rb =
           Some (RINGBUF_OK,
                 Some (ring_cells rb (unat (tail rb)) (unat len)
                       @ drop (unat len * unat (cell_size rb)) d),
                 rb\<lparr>tail := 0\<rparr>)"
proof -
  from v obtain b where b: "buf rb = Some b" by (rule rb_validD)
  have u: "unat (tail rb + ucast len) = unat (tail rb) + unat len"
    using fits by (simp add: unat_add_lem [THEN iffD1] unat_ucast_u16 [OF w])
  have "size_rb rb \<le> tail rb + ucast len"
    using cross by (simp add: word_le_nat_alt u)
  then show ?thesis
    using b by (simp add: RingBuf_DataRead_def DataWatch_ok [OF w v n d] Let_def)
qed

section \<open>Validity is established by initialisation and kept by every operation\<close>

lemma ByteWatch_same: "RingBuf_ByteWatch y rb = Some (st, y', rb') \<Longrightarrow> rb' = rb"
  by (auto simp: RingBuf_ByteWatch_def split: option.splits if_splits)

lemma DataWatch_same: "RingBuf_DataWatch data len rb = Some (st, d', rb') \<Longrightarrow> rb' = rb"
  by (auto simp: RingBuf_DataWatch_def Let_def split: option.splits if_splits)

lemma Init_valid:
  fixes rb :: "('w::len) word RINGBUF_t"
  assumes w: "16 \<le> LENGTH('w)"
    and sz: "0 < unat sz" "unat sz * unat cellsize \<le> length bs" "length bs < 2 ^ LENGTH('w)"
  shows "RingBuf_Init (Some bs) sz cellsize rb
           = (RINGBUF_OK, \<lparr>buf = Some bs, tail = 0, head = 0, size_rb = ucast sz,
                             cell_size = cellsize, \<dots> = RINGBUF_t.more rb\<rparr>)"
    and "rb_valid (snd (RingBuf_Init (Some bs) sz cellsize rb))"
proof -
  show 1: "RingBuf_Init (Some bs) sz cellsize rb
           = (RINGBUF_OK, \<lparr>buf = Some bs, tail = 0, head = 0, size_rb = ucast sz,
                             cell_size = cellsize, \<dots> = RINGBUF_t.more rb\<rparr>)"
    by (simp add: RingBuf_Init_def RingBuf_Clear_def Let_def)
  have u: "unat (ucast sz :: 'w word) = unat sz" by (rule unat_ucast_u16 [OF w])
  have "unat sz < 2 ^ 16" using unsigned_less [of sz] by simp
  then show "rb_valid (snd (RingBuf_Init (Some bs) sz cellsize rb))"
    using sz by (simp add: 1 rb_valid_def u word_less_nat_alt)
qed

lemma DataPut_valid:
  fixes rb :: "('w::len) word RINGBUF_t"
  assumes v: "rb_valid rb" and p: "RingBuf_DataPut input len rb = Some (st, rb')"
  shows "rb_valid rb'"
  using v p
  by (auto simp: rb_valid_def RingBuf_DataPut_def Let_def not_le word_gt_0
      dest!: memcpy_length split: option.splits if_splits)

lemma DataRead_valid:
  fixes rb :: "('w::len) word RINGBUF_t"
  assumes v: "rb_valid rb" and p: "RingBuf_DataRead data len rb = Some (st, data', rb')"
  shows "rb_valid rb'"
  using v p
  by (auto simp: rb_valid_def RingBuf_DataRead_def Let_def not_le word_gt_0
      dest!: DataWatch_same split: option.splits if_splits)

lemma BytePut_valid:
  fixes rb :: "('w::len) word RINGBUF_t"
  assumes v: "rb_valid rb" and p: "RingBuf_BytePut x rb = Some (st, rb')"
  shows "rb_valid rb'"
  using v p
  by (auto simp: rb_valid_def RingBuf_BytePut_def Let_def not_le word_gt_0
      split: option.splits if_splits)

lemma ByteRead_valid:
  fixes rb :: "('w::len) word RINGBUF_t"
  assumes v: "rb_valid rb" and p: "RingBuf_ByteRead y rb = Some (st, y', rb')"
  shows "rb_valid rb'"
  using v p
  by (auto simp: rb_valid_def RingBuf_ByteRead_def Let_def not_le word_gt_0
      dest!: ByteWatch_same split: option.splits if_splits)

lemma Clear_valid:
  fixes rb :: "('w::len) word RINGBUF_t"
  shows "rb_valid rb \<Longrightarrow> rb_valid (snd (RingBuf_Clear rb))"
  by (auto simp: rb_valid_def RingBuf_Clear_def word_gt_0 split: option.splits)

section \<open>Sequences of puts and reads\<close>

lemma length_ring_cells [simp]: "length (ring_cells rb t n) = n * unat (cell_size rb)"
  by (simp add: ring_cells_def)

lemma ring_cells_split:
  "ring_cells rb t (n1 + n2) =
     ring_cells rb t n1 @ ring_cells rb ((t + n1) mod unat (size_rb rb)) n2"
  by (simp only: ring_cells_def add_mult_distrib ring_window_split mod_mult_cells)

lemma ring_cells_parts:
  assumes s: "size_rb x = size_rb y" "cell_size x = cell_size y"
    and e: "ring_cells x a (p + q) = ring_cells y a (p + q)"
  shows "ring_cells x a p = ring_cells y a p"
    and "ring_cells x ((a + p) mod unat (size_rb y)) q = ring_cells y ((a + p) mod unat (size_rb y)) q"
proof -
  have "ring_cells x a p @ ring_cells x ((a + p) mod unat (size_rb y)) q
        = ring_cells y a p @ ring_cells y ((a + p) mod unat (size_rb y)) q"
    using e ring_cells_split [of x a p q] ring_cells_split [of y a p q] s by simp
  moreover have "length (ring_cells x a p) = length (ring_cells y a p)" using s by simp
  ultimately show "ring_cells x a p = ring_cells y a p"
    and "ring_cells x ((a + p) mod unat (size_rb y)) q = ring_cells y ((a + p) mod unat (size_rb y)) q"
    by simp_all
qed

lemma total_len_Cons [simp]: "total_len ((x, l) # ps) = unat l + total_len ps"
  by (simp add: total_len_def)

lemma total_len_Nil [simp]: "total_len [] = 0"
  by (simp add: total_len_def)

lemma put_data_Cons [simp]: "put_data c ((x, l) # ps) = take (unat l * c) x @ put_data c ps"
  by (simp add: put_data_def)

lemma put_data_Nil [simp]: "put_data c [] = []"
  by (simp add: put_data_def)

lemma regions_ok_Cons [simp]:
  "regions_ok c ((x, l) # ps) = (unat l * c \<le> length x \<and> regions_ok c ps)"
  by (simp add: regions_ok_def)

lemma regions_ok_Nil [simp]: "regions_ok c [] = True"
  by (simp add: regions_ok_def)

lemma ring_cells_0 [simp]: "ring_cells rb t 0 = []"
  by (simp add: ring_cells_def ring_window_def)

lemma put_all_ok:
  fixes rb :: "('w::len) word RINGBUF_t"
  assumes w: "16 \<le> LENGTH('w)"
  shows "rb_valid rb \<Longrightarrow> total_len ps \<le> unat (size_rb rb) \<Longrightarrow>
         regions_ok (unat (cell_size rb)) ps \<Longrightarrow>
         \<exists>rb'. put_all rb ps = Some rb'
           \<and> rb_valid rb' \<and> tail rb' = tail rb
           \<and> size_rb rb' = size_rb rb \<and> cell_size rb' = cell_size rb
           \<and> unat (head rb') = (unat (head rb) + total_len ps) mod unat (size_rb rb)
           \<and> ring_cells rb' (unat (head rb)) (total_len ps) = put_data (unat (cell_size rb)) ps
           \<and> ring_cells rb' ((unat (head rb) + total_len ps) mod unat (size_rb rb))
                 (unat (size_rb rb) - total_len ps)
               = ring_cells rb ((unat (head rb) + total_len ps) mod unat (size_rb rb))
                 (unat (size_rb rb) - total_len ps)"
proof (induction ps arbitrary: rb)
  case Nil
  then have "unat (head rb) < unat (size_rb rb)" by (auto elim: rb_validD)
  then show ?case using Nil by simp
next
  case (Cons p ps)
  obtain x l where p: "p = (x, l)" by (cases p)
  let ?N = "unat (size_rb rb)" and ?h = "unat (head rb)" and ?c = "unat (cell_size rb)"
  let ?n = "unat l" and ?k' = "total_len ps"
  let ?h1 = "(?h + ?n) mod ?N"
  let ?e = "(?h + (?n + ?k')) mod ?N"
  have v: "rb_valid rb" by fact
  have hN: "?h < ?N" using v by (auto elim: rb_validD)
  have tot: "?n + ?k' \<le> ?N" using Cons.prems(2) by (simp add: p)
  then have n: "?n \<le> ?N" by simp
  have reg: "?n * ?c \<le> length x" "regions_ok ?c ps" using Cons.prems(3) by (simp_all add: p)
  from DataPut_ok [OF w v n reg(1)] obtain rb1 where
    p1: "RingBuf_DataPut x l rb = Some (RINGBUF_OK, rb1)"
    and v1: "rb_valid rb1" and t1: "tail rb1 = tail rb"
    and s1: "size_rb rb1 = size_rb rb" and c1: "cell_size rb1 = cell_size rb"
    and h1: "unat (head rb1) = ?h1"
    and w1: "ring_cells rb1 ?h ?n = take (?n * ?c) x"
    and f1: "ring_cells rb1 ?h1 (?N - ?n) = ring_cells rb ?h1 (?N - ?n)"
    by blast
  have e: "(?h1 + ?k') mod ?N = ?e"
    by (simp add: mod_add_left_eq add.assoc)
  from Cons.IH [OF v1] tot reg(2) obtain rb' where
    p2: "put_all rb1 ps = Some rb'"
    and v2: "rb_valid rb'" and t2: "tail rb' = tail rb"
    and s2: "size_rb rb' = size_rb rb" and c2: "cell_size rb' = cell_size rb"
    and h2: "unat (head rb') = ?e"
    and w2: "ring_cells rb' ?h1 ?k' = put_data ?c ps"
    and f2: "ring_cells rb' ?e (?N - ?k') = ring_cells rb1 ?e (?N - ?k')"
    unfolding s1 c1 t1 h1 e by auto
  have wrap_back: "(?e + (?N - (?n + ?k'))) mod ?N = ?h"
  proof -
    have "(?e + (?N - (?n + ?k'))) mod ?N = (?h + (?n + ?k') + (?N - (?n + ?k'))) mod ?N"
      by (rule mod_add_left_eq)
    also have "?h + (?n + ?k') + (?N - (?n + ?k')) = ?h + ?N" using tot by simp
    also have "(?h + ?N) mod ?N = ?h" using hN by simp
    finally show ?thesis .
  qed
  have split1: "?N - ?k' = (?N - (?n + ?k')) + ?n" using tot by simp
  have s21: "size_rb rb' = size_rb rb1" "cell_size rb' = cell_size rb1"
    by (simp_all add: s1 s2 c1 c2)
  note parts1 = ring_cells_parts [OF s21 f2 [unfolded split1]]
  have keep1: "ring_cells rb' ?h ?n = ring_cells rb1 ?h ?n"
    using parts1(2) by (simp add: s1 wrap_back)
  have rest1: "ring_cells rb' ?e (?N - (?n + ?k')) = ring_cells rb1 ?e (?N - (?n + ?k'))"
    by (rule parts1(1))
  have split2: "?N - ?n = ?k' + (?N - (?n + ?k'))" using tot by simp
  have s10: "size_rb rb1 = size_rb rb" "cell_size rb1 = cell_size rb" by (fact s1, fact c1)
  note parts2 = ring_cells_parts [OF s10 f1 [unfolded split2]]
  have rest2: "ring_cells rb1 ?e (?N - (?n + ?k')) = ring_cells rb ?e (?N - (?n + ?k'))"
    using parts2(2) by (simp add: e)
  have data: "ring_cells rb' ?h (?n + ?k') = take (?n * ?c) x @ put_data ?c ps"
    using ring_cells_split [of rb' ?h ?n ?k'] keep1 w1 w2 by (simp add: s2)
  show ?case
    using p1 p2 v2 t2 s2 c2 h2 data rest1 rest2 by (simp add: p)
qed

lemma ring_cells_cong:
  "buf x = buf y \<Longrightarrow> size_rb x = size_rb y \<Longrightarrow> cell_size x = cell_size y \<Longrightarrow>
   ring_cells x = ring_cells y"
  by (simp add: ring_cells_def storage_def fun_eq_iff)

lemma read_all_fit:
  fixes rb :: "('w::len) word RINGBUF_t"
  assumes w: "16 \<le> LENGTH('w)"
  shows "rb_valid rb \<Longrightarrow> total_len rs \<le> unat (size_rb rb) \<Longrightarrow>
         regions_ok (unat (cell_size rb)) rs \<Longrightarrow>
         reads_fit (unat (size_rb rb)) (unat (tail rb)) (map (\<lambda>(x, l). unat l) rs) \<Longrightarrow>
         \<exists>rb'. read_all rb rs = Some (ring_cells rb (unat (tail rb)) (total_len rs), rb')"
proof (induction rs arbitrary: rb)
  case Nil
  then show ?case by simp
next
  case (Cons r rs)
  obtain x l where r: "r = (x, l)" by (cases r)
  let ?N = "unat (size_rb rb)" and ?t = "unat (tail rb)" and ?c = "unat (cell_size rb)"
  let ?n = "unat l"
  have v: "rb_valid rb" by fact
  have tot: "?n + total_len rs \<le> ?N" using Cons.prems(2) by (simp add: r)
  then have n: "?n \<le> ?N" by simp
  have reg: "?n * ?c \<le> length x" "regions_ok ?c rs" using Cons.prems(3) by (simp_all add: r)
  from DataRead_ok [OF w v n reg(1)] obtain rb1 where
    r1: "RingBuf_DataRead (Some x) l rb =
           Some (RINGBUF_OK, Some (ring_cells rb ?t ?n @ drop (?n * ?c) x), rb1)"
    and v1: "rb_valid rb1" and b1: "buf rb1 = buf rb"
    and s1: "size_rb rb1 = size_rb rb" and c1: "cell_size rb1 = cell_size rb"
    and t1: "?t + ?n \<le> ?N \<longrightarrow> unat (tail rb1) = (?t + ?n) mod ?N"
    by blast
  have out: "take (?n * ?c) (ring_cells rb ?t ?n @ drop (?n * ?c) x) = ring_cells rb ?t ?n"
    by simp
  show ?case
  proof (cases rs)
    case Nil
    then show ?thesis using r1 by (simp add: r)
  next
    case (Cons r' rs')
    then have fit: "?t + ?n \<le> ?N"
      and rest: "reads_fit ?N ((?t + ?n) mod ?N) (map (\<lambda>(x, l). unat l) rs)"
      using Cons.prems(4) by (simp_all add: r)
    have t1': "unat (tail rb1) = (?t + ?n) mod ?N" using t1 fit by simp
    from Cons.IH [OF v1] tot reg(2) rest obtain rb' where
      "read_all rb1 rs = Some (ring_cells rb1 ((?t + ?n) mod ?N) (total_len rs), rb')"
      unfolding s1 c1 t1' by auto
    moreover have "ring_cells rb1 = ring_cells rb" using b1 s1 c1 by (rule ring_cells_cong)
    ultimately show ?thesis
      using r1 by (simp add: r ring_cells_split)
  qed
qed

lemma read_all_within:
  fixes rb :: "('w::len) word RINGBUF_t"
  assumes w: "16 \<le> LENGTH('w)"
  shows "rb_valid rb \<Longrightarrow> total_len rs \<le> unat (size_rb rb) \<Longrightarrow>
         regions_ok (unat (cell_size rb)) rs \<Longrightarrow>
         reads_within (unat (size_rb rb)) (unat (tail rb)) (map (\<lambda>(x, l). unat l) rs) \<Longrightarrow>
         \<exists>rb'. read_all rb rs = Some (ring_cells rb (unat (tail rb)) (total_len rs), rb')
           \<and> rb_valid rb' \<and> head rb' = head rb \<and> buf rb' = buf rb
           \<and> size_rb rb' = size_rb rb \<and> cell_size rb' = cell_size rb
           \<and> unat (tail rb') = (unat (tail rb) + total_len rs) mod unat (size_rb rb)"
proof (induction rs arbitrary: rb)
  case Nil
  then have "unat (tail rb) < unat (size_rb rb)" by (auto elim: rb_validD)
  then show ?case using Nil by simp
next
  case (Cons r rs)
  obtain x l where r: "r = (x, l)" by (cases r)
  let ?N = "unat (size_rb rb)" and ?t = "unat (tail rb)" and ?c = "unat (cell_size rb)"
  let ?n = "unat l"
  have v: "rb_valid rb" by fact
  have tot: "?n + total_len rs \<le> ?N" using Cons.prems(2) by (simp add: r)
  then have n: "?n \<le> ?N" by simp
  have reg: "?n * ?c \<le> length x" "regions_ok ?c rs" using Cons.prems(3) by (simp_all add: r)
  have fit: "?t + ?n \<le> ?N"
    and rest: "reads_within ?N ((?t + ?n) mod ?N) (map (\<lambda>(x, l). unat l) rs)"
    using Cons.prems(4) by (simp_all add: r)
  from DataRead_ok [OF w v n reg(1)] fit obtain rb1 where
    r1: "RingBuf_DataRead (Some x) l rb =
           Some (RINGBUF_OK, Some (ring_cells rb ?t ?n @ drop (?n * ?c) x), rb1)"
    and v1: "rb_valid rb1" and h1: "head rb1 = head rb" and b1: "buf rb1 = buf rb"
    and s1: "size_rb rb1 = size_rb rb" and c1: "cell_size rb1 = cell_size rb"
    and t1: "unat (tail rb1) = (?t + ?n) mod ?N"
    by blast
  have e: "((?t + ?n) mod ?N + total_len rs) mod ?N = (?t + (?n + total_len rs)) mod ?N"
    by (simp add: mod_add_left_eq add.assoc)
  from Cons.IH [OF v1] tot reg(2) rest obtain rb' where
    r2: "read_all rb1 rs = Some (ring_cells rb1 ((?t + ?n) mod ?N) (total_len rs), rb')"
    and v2: "rb_valid rb'" and h2: "head rb' = head rb" and b2: "buf rb' = buf rb"
    and s2: "size_rb rb' = size_rb rb" and c2: "cell_size rb' = cell_size rb"
    and t2: "unat (tail rb') = (?t + (?n + total_len rs)) mod ?N"
    unfolding s1 c1 t1 h1 b1 e by auto
  have "ring_cells rb1 = ring_cells rb" using b1 s1 c1 by (rule ring_cells_cong)
  then show ?case
    using r1 r2 v2 h2 b2 s2 c2 t2 by (simp add: r ring_cells_split)
qed

lemma occupied_mod:
  fixes t m n N :: nat
  assumes t: "t < N" and nm: "n \<le> m" and mN: "m \<le> N"
  shows "((t + m) mod N + N - (t + n) mod N) mod N = (m - n) mod N"
proof -
  have wrap: "\<And>k. k \<le> N \<Longrightarrow> (t + k) mod N = (if t + k < N then t + k else t + k - N)"
  proof -
    fix k assume "k \<le> N"
    then have "t + k < 2 * N" using t by simp
    then show "(t + k) mod N = (if t + k < N then t + k else t + k - N)"
      by (simp add: mod_wrap_once)
  qed
  have nN: "n \<le> N" using nm mN by simp
  consider "t + m < N" | "N \<le> t + m" "t + n < N" | "N \<le> t + n"
    using nm by linarith
  then show ?thesis
  proof cases
    case 1
    then have "t + n < N" using nm by simp
    then have "(t + m) mod N + N - (t + n) mod N = (m - n) + N"
      using 1 nm by simp
    then show ?thesis by simp
  next
    case 2
    then have "(t + m) mod N + N - (t + n) mod N = m - n"
      using nm by (simp add: wrap [OF mN] wrap [OF nN])
    then show ?thesis by simp
  next
    case 3
    then have "N \<le> t + m" using nm by simp
    then have "(t + m) mod N + N - (t + n) mod N = (m - n) + N"
      using 3 nm by (simp add: wrap [OF mN] wrap [OF nN])
    then show ?thesis by simp
  qed
qed

section \<open>Evaluation on concrete buffers\<close>

text \<open>
  The defining equations of the operations, with the order on words read through
  \<open>unat\<close>: enough for the simplifier to run the operations on numerals.
\<close>

lemmas eval_defs = RingBuf_DataPut_def RingBuf_DataRead_def RingBuf_DataWatch_def
  RingBuf_Available_def RingBuf_Init_def RingBuf_Clear_def memcpy_def Let_def
  word_le_nat_alt word_less_nat_alt

section \<open>Initialisation\<close>

text \<open>
  C6, as stated, at a null storage: \<open>RingBuf_Init\<close> stores the null pointer, and
  \<open>RingBuf_Clear\<close> returns before resetting the indices, so \<open>head\<close> and \<open>tail\<close> keep the
  values 7 and 5 they had.
\<close>

theorem init_null_keeps_indices:
  "RingBuf_Init None 3 1
     (\<lparr>buf = None, tail = 5, head = 7, size_rb = 0, cell_size = 0\<rparr> :: 32 word RINGBUF_t)
   = (RINGBUF_PARAM_ERR, \<lparr>buf = None, tail = 5, head = 7, size_rb = 3, cell_size = 1\<rparr>)"
  by (simp add: RingBuf_Init_def RingBuf_Clear_def Let_def)

text \<open>
  C6, amended: \<open>RingBuf_Init\<close> records the storage pointer, the capacity and the cell
  size, and returns \<open>RINGBUF_PARAM_ERR\<close> exactly when the storage pointer is null and
  \<open>RINGBUF_OK\<close> otherwise. With a non-null storage it resets \<open>head\<close> and \<open>tail\<close> to zero;
  with a null storage it leaves both as they were.
\<close>

theorem init_binds_and_resets:
  assumes "RingBuf_Init b sz cellsize rb = (st, rb')"
  shows "buf rb' = b \<and> size_rb rb' = ucast sz \<and> cell_size rb' = cellsize
       \<and> (st = RINGBUF_PARAM_ERR \<longleftrightarrow> b = None) \<and> (st = RINGBUF_OK \<longleftrightarrow> b \<noteq> None)
       \<and> (b \<noteq> None \<longrightarrow> head rb' = 0 \<and> tail rb' = 0)
       \<and> (b = None \<longrightarrow> head rb' = head rb \<and> tail rb' = tail rb)"
  using assms by (auto simp: RingBuf_Init_def RingBuf_Clear_def Let_def split: if_splits)

theorem init_binds_and_resets_witness:
  "RingBuf_Init (Some [0, 0, 0]) 3 1 (rb3 2 1)
     = (RINGBUF_OK, \<lparr>buf = Some [0, 0, 0], tail = 0, head = 0, size_rb = 3, cell_size = 1\<rparr>)
   \<and> buf (snd (RingBuf_Init (Some [0, 0, 0]) 3 1 (rb3 2 1))) = Some [0, 0, 0]
   \<and> head (snd (RingBuf_Init (Some [0, 0, 0]) 3 1 (rb3 2 1))) = 0
   \<and> tail (snd (RingBuf_Init (Some [0, 0, 0]) 3 1 (rb3 2 1))) = 0
   \<and> fst (RingBuf_Init None 3 1 (rb3 2 1)) = RINGBUF_PARAM_ERR
   \<and> head (snd (RingBuf_Init None 3 1 (rb3 2 1))) = head (rb3 2 1)
   \<and> tail (snd (RingBuf_Init None 3 1 (rb3 2 1))) = tail (rb3 2 1)"
proof -
  have 1: "RingBuf_Init (Some [0, 0, 0]) 3 1 (rb3 2 1)
     = (RINGBUF_OK, \<lparr>buf = Some [0, 0, 0], tail = 0, head = 0, size_rb = 3, cell_size = 1\<rparr>)"
    by (simp add: RingBuf_Init_def RingBuf_Clear_def Let_def rb3_def)
  have 2: "RingBuf_Init None 3 1 (rb3 2 1)
     = (RINGBUF_PARAM_ERR, \<lparr>buf = None, tail = 2, head = 1, size_rb = 3, cell_size = 1\<rparr>)"
    by (simp add: RingBuf_Init_def RingBuf_Clear_def Let_def rb3_def)
  show ?thesis
    using init_binds_and_resets [OF 1] init_binds_and_resets [OF 2] 1 2
    by (simp add: rb3_def)
qed

section \<open>Rejection of calls\<close>

text \<open>
  C2 at a structure that skipped initialisation, and at one whose initialisation failed:
  \<open>RingBuf_DataWatch\<close> checks the output pointer and the length but never the storage
  pointer. On the zeroed structure a watch of one cell returns \<open>RINGBUF_OVERFLOW\<close>; after
  \<open>RingBuf_Init\<close> with a null storage and capacity 3, the cell and byte watches read
  through the null storage pointer.
\<close>

theorem watch_unbound_not_rejected:
  "RingBuf_DataWatch (Some [0]) 1 rb_zero = Some (RINGBUF_OVERFLOW, Some [0], rb_zero)
   \<and> fst (RingBuf_Init None 3 1 rb_zero) = RINGBUF_PARAM_ERR
   \<and> RingBuf_CellWatch (Some [0]) (snd (RingBuf_Init None 3 1 rb_zero)) = None
   \<and> RingBuf_ByteWatch (Some 0) (snd (RingBuf_Init None 3 1 rb_zero)) = None"
  by (simp add: RingBuf_DataWatch_def RingBuf_CellWatch_def RingBuf_ByteWatch_def
      RingBuf_Init_def RingBuf_Clear_def Let_def rb_zero_def)

text \<open>Every other operation checks the storage pointer first.\<close>

lemma unbound_rejected:
  assumes "buf rb = None"
  shows "RingBuf_Clear rb = (RINGBUF_PARAM_ERR, rb)"
    and "RingBuf_Available l rb = (RINGBUF_PARAM_ERR, l, rb)"
    and "RingBuf_BytePut x rb = Some (RINGBUF_PARAM_ERR, rb)"
    and "RingBuf_CellPut input rb = Some (RINGBUF_PARAM_ERR, rb)"
    and "RingBuf_DataPut input len rb = Some (RINGBUF_PARAM_ERR, rb)"
    and "RingBuf_ByteRead y rb = Some (RINGBUF_PARAM_ERR, y, rb)"
    and "RingBuf_CellRead data rb = Some (RINGBUF_PARAM_ERR, data, rb)"
    and "RingBuf_DataRead data len rb = Some (RINGBUF_PARAM_ERR, data, rb)"
  using assms
  by (simp_all add: RingBuf_Clear_def RingBuf_Available_def RingBuf_BytePut_def
      RingBuf_CellPut_def RingBuf_DataPut_def RingBuf_ByteRead_def RingBuf_CellRead_def
      RingBuf_DataRead_def)

text \<open>The status of the three data operations, when they return.\<close>

lemma DataPut_status:
  "RingBuf_DataPut input len rb = Some (st, rb') \<Longrightarrow>
   st = (if buf rb = None then RINGBUF_PARAM_ERR
         else if size_rb rb < ucast len then RINGBUF_OVERFLOW else RINGBUF_OK)"
  by (auto simp: RingBuf_DataPut_def Let_def split: option.splits if_splits prod.splits)

lemma DataWatch_status:
  "RingBuf_DataWatch data len rb = Some (st, d', rb') \<Longrightarrow>
   st = (if data = None then RINGBUF_PARAM_ERR
         else if size_rb rb < ucast len then RINGBUF_OVERFLOW else RINGBUF_OK) \<and> rb' = rb"
  by (auto simp: RingBuf_DataWatch_def Let_def split: option.splits if_splits prod.splits)

lemma DataRead_status:
  "RingBuf_DataRead data len rb = Some (st, d', rb') \<Longrightarrow>
   st = (if buf rb = None \<or> data = None then RINGBUF_PARAM_ERR
         else if size_rb rb < ucast len then RINGBUF_OVERFLOW else RINGBUF_OK)"
  by (auto simp: RingBuf_DataRead_def Let_def dest!: DataWatch_status split: option.splits if_splits prod.splits)

text \<open>
  C5, as stated, at a null output pointer: on a bound buffer of capacity 3, a watch or a
  read of 5 cells returns \<open>RINGBUF_PARAM_ERR\<close>, because the output pointer is checked before
  the length.
\<close>

theorem overflow_null_output_counterexample:
  "RingBuf_DataWatch None 5 (rb3 0 0) = Some (RINGBUF_PARAM_ERR, None, rb3 0 0)
   \<and> RingBuf_DataRead None 5 (rb3 0 0) = Some (RINGBUF_PARAM_ERR, None, rb3 0 0)"
  by (simp add: RingBuf_DataWatch_def RingBuf_DataRead_def rb3_def)

text \<open>
  C5, amended: on a bound buffer, \<open>RingBuf_DataPut\<close>, and \<open>RingBuf_DataWatch\<close> and
  \<open>RingBuf_DataRead\<close> with a non-null output pointer, return \<open>RINGBUF_OVERFLOW\<close> when the
  length exceeds the capacity, and leave the structure (so \<open>head\<close> and \<open>tail\<close>) and the
  output unchanged; with a null output pointer the watch and the read return
  \<open>RINGBUF_PARAM_ERR\<close> instead, also without any change. With a length of at most the
  capacity none of the three returns \<open>RINGBUF_OVERFLOW\<close>, whatever \<open>head\<close> and \<open>tail\<close> are.
\<close>

theorem overflow_rejection:
  fixes rb :: "('w::len) word RINGBUF_t"
  assumes w: "16 \<le> LENGTH('w)" and b: "buf rb \<noteq> None"
  shows "(unat (size_rb rb) < unat len \<longrightarrow>
            RingBuf_DataPut input len rb = Some (RINGBUF_OVERFLOW, rb)
          \<and> RingBuf_DataWatch (Some d) len rb = Some (RINGBUF_OVERFLOW, Some d, rb)
          \<and> RingBuf_DataRead (Some d) len rb = Some (RINGBUF_OVERFLOW, Some d, rb)
          \<and> RingBuf_DataWatch None len rb = Some (RINGBUF_PARAM_ERR, None, rb)
          \<and> RingBuf_DataRead None len rb = Some (RINGBUF_PARAM_ERR, None, rb))
       \<and> (unat len \<le> unat (size_rb rb) \<longrightarrow>
            (\<forall>r. RingBuf_DataPut input len rb = Some r \<longrightarrow> fst r \<noteq> RINGBUF_OVERFLOW)
          \<and> (\<forall>r. RingBuf_DataWatch data len rb = Some r \<longrightarrow> fst r \<noteq> RINGBUF_OVERFLOW)
          \<and> (\<forall>r. RingBuf_DataRead data len rb = Some r \<longrightarrow> fst r \<noteq> RINGBUF_OVERFLOW))"
proof (intro conjI impI allI)
  assume "unat (size_rb rb) < unat len"
  then have o: "size_rb rb < ucast len" by (simp add: ucast_u16_less [OF w])
  show "RingBuf_DataPut input len rb = Some (RINGBUF_OVERFLOW, rb)"
    using b o by (auto simp: RingBuf_DataPut_def)
  show wd: "RingBuf_DataWatch (Some d) len rb = Some (RINGBUF_OVERFLOW, Some d, rb)"
    using o by (simp add: RingBuf_DataWatch_def)
  show "RingBuf_DataRead (Some d) len rb = Some (RINGBUF_OVERFLOW, Some d, rb)"
    using b by (simp add: RingBuf_DataRead_def wd)
  show wn: "RingBuf_DataWatch None len rb = Some (RINGBUF_PARAM_ERR, None, rb)"
    by (simp add: RingBuf_DataWatch_def)
  show "RingBuf_DataRead None len rb = Some (RINGBUF_PARAM_ERR, None, rb)"
    using b by (simp add: RingBuf_DataRead_def wn)
next
  fix r :: "RINGBUF_STATUS \<times> 'w word RINGBUF_t"
  assume "unat len \<le> unat (size_rb rb)"
  then have o: "\<not> size_rb rb < ucast len" by (simp add: ucast_u16_less [OF w])
  assume "RingBuf_DataPut input len rb = Some r"
  then have "RingBuf_DataPut input len rb = Some (fst r, snd r)" by simp
  from DataPut_status [OF this] o show "fst r \<noteq> RINGBUF_OVERFLOW" by (simp split: if_splits)
next
  fix r :: "RINGBUF_STATUS \<times> u8_t list option \<times> 'w word RINGBUF_t"
  assume "unat len \<le> unat (size_rb rb)"
  then have o: "\<not> size_rb rb < ucast len" by (simp add: ucast_u16_less [OF w])
  assume "RingBuf_DataWatch data len rb = Some r"
  then have "RingBuf_DataWatch data len rb = Some (fst r, fst (snd r), snd (snd r))" by simp
  from DataWatch_status [OF this] o show "fst r \<noteq> RINGBUF_OVERFLOW" by (simp split: if_splits)
next
  fix r :: "RINGBUF_STATUS \<times> u8_t list option \<times> 'w word RINGBUF_t"
  assume "unat len \<le> unat (size_rb rb)"
  then have o: "\<not> size_rb rb < ucast len" by (simp add: ucast_u16_less [OF w])
  assume "RingBuf_DataRead data len rb = Some r"
  then have "RingBuf_DataRead data len rb = Some (fst r, fst (snd r), snd (snd r))" by simp
  from DataRead_status [OF this] o show "fst r \<noteq> RINGBUF_OVERFLOW" by (simp split: if_splits)
qed

theorem overflow_rejection_witness:
  "16 \<le> LENGTH(32) \<and> buf (rb3 1 1) \<noteq> None
   \<and> unat (size_rb (rb3 1 1)) < unat (5 :: u16_t)
   \<and> RingBuf_DataPut [1, 2, 3, 4, 5] 5 (rb3 1 1) = Some (RINGBUF_OVERFLOW, rb3 1 1)
   \<and> RingBuf_DataWatch (Some [0, 0, 0, 0, 0]) 5 (rb3 1 1)
       = Some (RINGBUF_OVERFLOW, Some [0, 0, 0, 0, 0], rb3 1 1)
   \<and> RingBuf_DataRead (Some [0, 0, 0, 0, 0]) 5 (rb3 1 1)
       = Some (RINGBUF_OVERFLOW, Some [0, 0, 0, 0, 0], rb3 1 1)
   \<and> unat (3 :: u16_t) \<le> unat (size_rb (rb3 1 1))
   \<and> RingBuf_DataPut [1, 2, 3] 3 (rb3 1 1)
       = Some (RINGBUF_OK, \<lparr>buf = Some [3, 1, 2], tail = 1, head = 1, size_rb = 3, cell_size = 1\<rparr>)
   \<and> fst (RINGBUF_OK, \<lparr>buf = Some [3, 1, 2], tail = 1, head = 1, size_rb = 3, cell_size = 1 :: 32 word\<rparr>)
       \<noteq> RINGBUF_OVERFLOW"
proof -
  have p: "RingBuf_DataPut [1, 2, 3] 3 (rb3 1 1)
       = Some (RINGBUF_OK, \<lparr>buf = Some [3, 1, 2], tail = 1, head = 1, size_rb = 3, cell_size = 1\<rparr>)"
    by (simp add: RingBuf_DataPut_def memcpy_def Let_def rb3_def word_le_nat_alt)
  have h: "16 \<le> LENGTH(32)" "buf (rb3 1 1) \<noteq> None" by (simp_all add: rb3_def)
  have s: "unat (size_rb (rb3 1 1)) < unat (5 :: u16_t)" "unat (3 :: u16_t) \<le> unat (size_rb (rb3 1 1))"
    by (simp_all add: rb3_def)
  note a = overflow_rejection [OF h, where len = 5 and input = "[1, 2, 3, 4, 5]" and d = "[0, 0, 0, 0, 0]"]
  note c = overflow_rejection [OF h, where len = 3 and input = "[1, 2, 3]"]
  from a s(1) have a': "RingBuf_DataPut [1, 2, 3, 4, 5] 5 (rb3 1 1) = Some (RINGBUF_OVERFLOW, rb3 1 1)
     \<and> RingBuf_DataWatch (Some [0, 0, 0, 0, 0]) 5 (rb3 1 1) = Some (RINGBUF_OVERFLOW, Some [0, 0, 0, 0, 0], rb3 1 1)
     \<and> RingBuf_DataRead (Some [0, 0, 0, 0, 0]) 5 (rb3 1 1) = Some (RINGBUF_OVERFLOW, Some [0, 0, 0, 0, 0], rb3 1 1)"
    by blast
  from c s(2) p have c': "fst (RINGBUF_OK, \<lparr>buf = Some [3, 1, 2], tail = 1, head = 1, size_rb = 3, cell_size = 1 :: 32 word\<rparr>)
       \<noteq> RINGBUF_OVERFLOW"
    by blast
  show ?thesis using h s a' p c' by blast
qed

section \<open>The index invariant\<close>

lemma idx_inv_buf_upd [simp]: "idx_inv (rb\<lparr>buf := b\<rparr>) = idx_inv rb"
  by (simp add: idx_inv_def)

lemma Clear_inv: "idx_inv rb \<Longrightarrow> idx_inv (snd (RingBuf_Clear rb))"
  by (auto simp: idx_inv_def RingBuf_Clear_def word_gt_0)

lemma Available_inv: "idx_inv rb \<Longrightarrow> idx_inv (snd (snd (RingBuf_Available l rb)))"
  by (simp add: RingBuf_Available_def)

lemma BytePut_inv: "idx_inv rb \<Longrightarrow> RingBuf_BytePut x rb = Some (st, rb') \<Longrightarrow> idx_inv rb'"
  by (auto simp: RingBuf_BytePut_def Let_def idx_inv_def not_le word_gt_0 split: option.splits if_splits)

lemma DataPut_inv: "idx_inv rb \<Longrightarrow> RingBuf_DataPut input len rb = Some (st, rb') \<Longrightarrow> idx_inv rb'"
  by (auto simp: RingBuf_DataPut_def Let_def idx_inv_def not_le word_gt_0 split: option.splits if_splits)

lemma ByteRead_inv: "idx_inv rb \<Longrightarrow> RingBuf_ByteRead y rb = Some (st, y', rb') \<Longrightarrow> idx_inv rb'"
  by (auto simp: RingBuf_ByteRead_def Let_def idx_inv_def not_le word_gt_0
      dest!: ByteWatch_same split: option.splits if_splits)

lemma DataRead_inv: "idx_inv rb \<Longrightarrow> RingBuf_DataRead data len rb = Some (st, d', rb') \<Longrightarrow> idx_inv rb'"
  by (auto simp: RingBuf_DataRead_def Let_def idx_inv_def not_le word_gt_0
      dest!: DataWatch_same split: option.splits if_splits)

text \<open>
  C8: for a buffer of capacity at least 1 with \<open>head\<close> and \<open>tail\<close> below the capacity,
  every operation of the interface that returns leaves \<open>head\<close> and \<open>tail\<close> below the
  capacity (and the capacity at least 1).
\<close>

theorem index_invariant_preserved:
  fixes rb :: "('w::len) word RINGBUF_t"
  assumes i: "idx_inv rb"
  shows "idx_inv (snd (RingBuf_Clear rb))
       \<and> idx_inv (snd (snd (RingBuf_Available l rb)))
       \<and> (RingBuf_BytePut x rb = Some (s1, r1) \<longrightarrow> idx_inv r1)
       \<and> (RingBuf_CellPut input rb = Some (s2, r2) \<longrightarrow> idx_inv r2)
       \<and> (RingBuf_DataPut input len rb = Some (s3, r3) \<longrightarrow> idx_inv r3)
       \<and> (RingBuf_ByteRead y rb = Some (s4, y4, r4) \<longrightarrow> idx_inv r4)
       \<and> (RingBuf_CellRead data rb = Some (s5, d5, r5) \<longrightarrow> idx_inv r5)
       \<and> (RingBuf_DataRead data len rb = Some (s6, d6, r6) \<longrightarrow> idx_inv r6)
       \<and> (RingBuf_ByteWatch y rb = Some (s7, y7, r7) \<longrightarrow> idx_inv r7)
       \<and> (RingBuf_CellWatch data rb = Some (s8, d8, r8) \<longrightarrow> idx_inv r8)
       \<and> (RingBuf_DataWatch data len rb = Some (s9, d9, r9) \<longrightarrow> idx_inv r9)"
proof (intro conjI impI)
  show "idx_inv (snd (RingBuf_Clear rb))" using i by (rule Clear_inv)
  show "idx_inv (snd (snd (RingBuf_Available l rb)))" using i by (rule Available_inv)
  show "idx_inv r1" if "RingBuf_BytePut x rb = Some (s1, r1)" using i that by (rule BytePut_inv)
  show "idx_inv r2" if "RingBuf_CellPut input rb = Some (s2, r2)"
    using i that unfolding RingBuf_CellPut_def by (rule DataPut_inv)
  show "idx_inv r3" if "RingBuf_DataPut input len rb = Some (s3, r3)" using i that by (rule DataPut_inv)
  show "idx_inv r4" if "RingBuf_ByteRead y rb = Some (s4, y4, r4)" using i that by (rule ByteRead_inv)
  show "idx_inv r5" if "RingBuf_CellRead data rb = Some (s5, d5, r5)"
    using i that unfolding RingBuf_CellRead_def by (rule DataRead_inv)
  show "idx_inv r6" if "RingBuf_DataRead data len rb = Some (s6, d6, r6)" using i that by (rule DataRead_inv)
  show "idx_inv r7" if "RingBuf_ByteWatch y rb = Some (s7, y7, r7)"
    using i ByteWatch_same [OF that] by simp
  show "idx_inv r8" if "RingBuf_CellWatch data rb = Some (s8, d8, r8)"
    using i DataWatch_same [OF that [unfolded RingBuf_CellWatch_def]] by simp
  show "idx_inv r9" if "RingBuf_DataWatch data len rb = Some (s9, d9, r9)"
    using i DataWatch_same [OF that] by simp
qed

theorem index_invariant_preserved_witness:
  "idx_inv (rb3 1 2)
   \<and> idx_inv (snd (RingBuf_Clear (rb3 1 2)))
   \<and> idx_inv (snd (snd (RingBuf_Available 0 (rb3 1 2))))
   \<and> RingBuf_BytePut 9 (rb3 1 2)
       = Some (RINGBUF_OK, \<lparr>buf = Some [11, 12, 9], tail = 1, head = 0, size_rb = 3, cell_size = 1\<rparr>)
   \<and> idx_inv (\<lparr>buf = Some [11, 12, 9], tail = 1, head = 0, size_rb = 3, cell_size = 1\<rparr> :: 32 word RINGBUF_t)
   \<and> RingBuf_CellPut [7, 8] (rb3 1 2)
       = Some (RINGBUF_OK, \<lparr>buf = Some [11, 12, 7], tail = 1, head = 0, size_rb = 3, cell_size = 1\<rparr>)
   \<and> idx_inv (\<lparr>buf = Some [11, 12, 7], tail = 1, head = 0, size_rb = 3, cell_size = 1\<rparr> :: 32 word RINGBUF_t)
   \<and> RingBuf_DataPut [7, 8] 2 (rb3 1 2)
       = Some (RINGBUF_OK, \<lparr>buf = Some [8, 12, 7], tail = 1, head = 1, size_rb = 3, cell_size = 1\<rparr>)
   \<and> idx_inv (\<lparr>buf = Some [8, 12, 7], tail = 1, head = 1, size_rb = 3, cell_size = 1\<rparr> :: 32 word RINGBUF_t)
   \<and> RingBuf_ByteRead (Some 0) (rb3 1 2) = Some (RINGBUF_OK, Some 12, rb3 2 2)
   \<and> RingBuf_CellRead (Some [0, 0]) (rb3 1 2) = Some (RINGBUF_OK, Some [12, 0], rb3 2 2)
   \<and> idx_inv (rb3 2 2)
   \<and> RingBuf_DataRead (Some [0, 0]) 2 (rb3 1 2) = Some (RINGBUF_OK, Some [12, 10], rb3 0 2)
   \<and> idx_inv (rb3 0 2)
   \<and> RingBuf_ByteWatch (Some 0) (rb3 1 2) = Some (RINGBUF_OK, Some 12, rb3 1 2)
   \<and> RingBuf_CellWatch (Some [0, 0]) (rb3 1 2) = Some (RINGBUF_OK, Some [12, 0], rb3 1 2)
   \<and> RingBuf_DataWatch (Some [0, 0]) 2 (rb3 1 2) = Some (RINGBUF_OK, Some [12, 10], rb3 1 2)"
proof -
  have i: "idx_inv (rb3 1 2)" by (simp add: idx_inv_def rb3_def word_le_nat_alt)
  have e1: "RingBuf_BytePut 9 (rb3 1 2)
       = Some (RINGBUF_OK, \<lparr>buf = Some [11, 12, 9], tail = 1, head = 0, size_rb = 3, cell_size = 1\<rparr>)"
    by (simp add: RingBuf_BytePut_def Let_def rb3_def)
  have e3: "RingBuf_DataPut [7, 8] 2 (rb3 1 2)
       = Some (RINGBUF_OK, \<lparr>buf = Some [8, 12, 7], tail = 1, head = 1, size_rb = 3, cell_size = 1\<rparr>)"
    by (simp add: RingBuf_DataPut_def memcpy_def Let_def rb3_def word_le_nat_alt)
  have e2: "RingBuf_CellPut [7, 8] (rb3 1 2)
       = Some (RINGBUF_OK, \<lparr>buf = Some [11, 12, 7], tail = 1, head = 0, size_rb = 3, cell_size = 1\<rparr>)"
    by (simp add: RingBuf_CellPut_def RingBuf_DataPut_def memcpy_def Let_def rb3_def word_le_nat_alt)
  have e7: "RingBuf_ByteWatch (Some 0) (rb3 1 2) = Some (RINGBUF_OK, Some 12, rb3 1 2)"
    by (simp add: RingBuf_ByteWatch_def rb3_def)
  have e9: "RingBuf_DataWatch (Some [0, 0]) 2 (rb3 1 2) = Some (RINGBUF_OK, Some [12, 10], rb3 1 2)"
    by (simp add: RingBuf_DataWatch_def memcpy_def Let_def rb3_def word_le_nat_alt)
  have e8: "RingBuf_CellWatch (Some [0, 0]) (rb3 1 2) = Some (RINGBUF_OK, Some [12, 0], rb3 1 2)"
    by (simp add: RingBuf_CellWatch_def RingBuf_DataWatch_def memcpy_def Let_def rb3_def word_le_nat_alt)
  have e4: "RingBuf_ByteRead (Some 0) (rb3 1 2) = Some (RINGBUF_OK, Some 12, rb3 2 2)"
    by (simp add: RingBuf_ByteRead_def e7) (simp add: rb3_def Let_def word_le_nat_alt)
  have e5: "RingBuf_CellRead (Some [0, 0]) (rb3 1 2) = Some (RINGBUF_OK, Some [12, 0], rb3 2 2)"
    by (simp add: RingBuf_CellRead_def RingBuf_DataRead_def e8 [unfolded RingBuf_CellWatch_def])
       (simp add: rb3_def Let_def word_le_nat_alt)
  have e6: "RingBuf_DataRead (Some [0, 0]) 2 (rb3 1 2) = Some (RINGBUF_OK, Some [12, 10], rb3 0 2)"
    by (simp add: RingBuf_DataRead_def e9) (simp add: rb3_def Let_def word_le_nat_alt)
  note t = index_invariant_preserved [OF i, where l = 0 and x = 9 and input = "[7, 8]" and len = 2
      and y = "Some 0" and data = "Some [0, 0]"
      and ?s1.0 = RINGBUF_OK
      and ?r1.0 = "\<lparr>buf = Some [11, 12, 9], tail = 1, head = 0, size_rb = 3, cell_size = 1\<rparr>"
      and ?s2.0 = RINGBUF_OK
      and ?r2.0 = "\<lparr>buf = Some [11, 12, 7], tail = 1, head = 0, size_rb = 3, cell_size = 1\<rparr>"
      and ?s3.0 = RINGBUF_OK
      and ?r3.0 = "\<lparr>buf = Some [8, 12, 7], tail = 1, head = 1, size_rb = 3, cell_size = 1\<rparr>"
      and ?s4.0 = RINGBUF_OK and ?y4.0 = "Some 12" and ?r4.0 = "rb3 2 2"
      and ?s5.0 = RINGBUF_OK and ?d5.0 = "Some [12, 0]" and ?r5.0 = "rb3 2 2"
      and ?s6.0 = RINGBUF_OK and ?d6.0 = "Some [12, 10]" and ?r6.0 = "rb3 0 2"
      and ?s7.0 = RINGBUF_OK and ?y7.0 = "Some 12" and ?r7.0 = "rb3 1 2"
      and ?s8.0 = RINGBUF_OK and ?d8.0 = "Some [12, 0]" and ?r8.0 = "rb3 1 2"
      and ?s9.0 = RINGBUF_OK and ?d9.0 = "Some [12, 10]" and ?r9.0 = "rb3 1 2"]
  show ?thesis
    using i t e1 e2 e3 e4 e5 e6 e7 e8 e9 by blast
qed

section \<open>Reading\<close>

text \<open>
  C1 at a read that crosses the end of the storage: capacity 3, \<open>tail = 1\<close>, three cells
  read. \<open>RingBuf_DataWatch\<close> delivers the three cells in ring order, and
  \<open>RingBuf_DataRead\<close> returns the same status and data, but it then adds the length to
  \<open>tail\<close> and, finding the sum 4 not below the capacity, stores 0, whereas
  \<open>(1 + 3) mod 3 = 1\<close>.
\<close>

theorem read_many_wrap_resets_tail:
  "RingBuf_DataWatch (Some [0, 0, 0]) 3 (rb3 1 1) = Some (RINGBUF_OK, Some [12, 10, 11], rb3 1 1)
   \<and> RingBuf_DataRead (Some [0, 0, 0]) 3 (rb3 1 1) = Some (RINGBUF_OK, Some [12, 10, 11], rb3 0 1)
   \<and> (unat (tail (rb3 1 1)) + unat (3 :: u16_t)) mod unat (size_rb (rb3 1 1)) = 1
   \<and> unat (tail (rb3 0 1)) = 0"
  by (simp add: RingBuf_DataRead_def RingBuf_DataWatch_def memcpy_def Let_def rb3_def)

text \<open>
  C10: on a valid bound buffer, with a non-null output region that holds \<open>len\<close> cells and
  \<open>0 < len \<le> capacity\<close>, \<open>RingBuf_DataWatch\<close> and \<open>RingBuf_DataRead\<close> return
  \<open>RINGBUF_OK\<close> whatever \<open>head\<close> is (so also when fewer than \<open>len\<close> cells, or none, are
  occupied), and deliver the bytes the storage holds in the \<open>len\<close> cells from \<open>tail\<close> on,
  in ring order.
\<close>

theorem read_beyond_available:
  fixes rb :: "('w::len) word RINGBUF_t"
  assumes w: "16 \<le> LENGTH('w)" and v: "rb_valid rb"
    and pos: "0 < unat len" and n: "unat len \<le> unat (size_rb rb)"
    and d: "unat len * unat (cell_size rb) \<le> length d"
  shows "RingBuf_DataWatch (Some d) len rb =
           Some (RINGBUF_OK,
                 Some (ring_cells rb (unat (tail rb)) (unat len)
                       @ drop (unat len * unat (cell_size rb)) d),
                 rb)
       \<and> (\<exists>rb'. RingBuf_DataRead (Some d) len rb =
             Some (RINGBUF_OK,
                   Some (ring_cells rb (unat (tail rb)) (unat len)
                         @ drop (unat len * unat (cell_size rb)) d),
                   rb'))"
  using DataWatch_ok [OF w v n d] DataRead_ok [OF w v n d] by blast

theorem read_beyond_available_witness:
  "16 \<le> LENGTH(32) \<and> rb_valid (rb3 0 0)
   \<and> 0 < unat (3 :: u16_t) \<and> unat (3 :: u16_t) \<le> unat (size_rb (rb3 0 0))
   \<and> unat (3 :: u16_t) * unat (cell_size (rb3 0 0)) \<le> length [0, 0, 0 :: u8_t]
   \<and> RingBuf_Available 7 (rb3 0 0) = (RINGBUF_OK, 0, rb3 0 0)
   \<and> RingBuf_DataWatch (Some [0, 0, 0]) 3 (rb3 0 0) = Some (RINGBUF_OK, Some [11, 12, 10], rb3 0 0)
   \<and> RingBuf_DataRead (Some [0, 0, 0]) 3 (rb3 0 0) = Some (RINGBUF_OK, Some [11, 12, 10], rb3 0 0)
   \<and> ring_cells (rb3 0 0) (unat (tail (rb3 0 0))) (unat (3 :: u16_t)) = [11, 12, 10]"
proof -
  have h: "16 \<le> LENGTH(32)" "rb_valid (rb3 0 0)"
    "0 < unat (3 :: u16_t)" "unat (3 :: u16_t) \<le> unat (size_rb (rb3 0 0))"
    "unat (3 :: u16_t) * unat (cell_size (rb3 0 0)) \<le> length [0, 0, 0 :: u8_t]"
    by (simp_all add: eval_defs rb3_def rb_valid_def)
  have a: "RingBuf_Available 7 (rb3 0 0) = (RINGBUF_OK, 0, rb3 0 0)"
    by (simp add: eval_defs rb3_def rb_valid_def)
  have r: "RingBuf_DataRead (Some [0, 0, 0]) 3 (rb3 0 0) = Some (RINGBUF_OK, Some [11, 12, 10], rb3 0 0)"
    by (simp add: eval_defs rb3_def rb_valid_def)
  have c: "ring_cells (rb3 0 0) (unat (tail (rb3 0 0))) (unat (3 :: u16_t)) = [11, 12, 10]"
    by (simp add: ring_cells_def ring_window_def storage_def rb3_def upt_rec)
  show ?thesis
    using read_beyond_available [OF h] h a r c by simp
qed

section \<open>Frame conditions\<close>

lemma memcpy_idem:
  assumes "memcpy d off b s n = Some d1"
  shows "memcpy d1 off b s n = Some d1"
proof -
  from assms have b: "off + n \<le> length d" "s + n \<le> length b"
    and d1: "d1 = take off d @ take n (drop s b) @ drop (off + n) d"
    by (auto simp: memcpy_def split: if_splits)
  have l: "length d1 = length d" using b by (simp add: d1)
  have "take off d1 = take off d" using b by (simp add: d1)
  moreover have "drop (off + n) d1 = drop (off + n) d" using b by (simp add: d1)
  ultimately show ?thesis using b l d1 by (simp add: memcpy_def)
qed

lemma memcpy_idem2:
  assumes "memcpy d 0 b s n1 = Some d1" and "memcpy d1 n1 b s2 n2 = Some d2"
  shows "memcpy d2 0 b s n1 = Some d2"
proof -
  from assms(1) have b1: "n1 \<le> length d" "s + n1 \<le> length b"
    and d1: "d1 = take n1 (drop s b) @ drop n1 d"
    by (auto simp: memcpy_def split: if_splits)
  have l1: "length d1 = length d" using b1 by (simp add: d1)
  from assms(2) have b2: "n1 + n2 \<le> length d1" "s2 + n2 \<le> length b"
    and d2: "d2 = take n1 d1 @ take n2 (drop s2 b) @ drop (n1 + n2) d1"
    by (auto simp: memcpy_def split: if_splits)
  have l2: "length d2 = length d" using b2 l1 by (simp add: d2)
  have t: "take n1 d1 = take n1 (drop s b)" using b1 by (simp add: d1)
  have "drop n1 d2 = take n2 (drop s2 b) @ drop (n1 + n2) d1"
    using b1 b2 l1 by (simp add: d2)
  then have "d2 = take n1 (drop s b) @ drop n1 d2" by (simp add: d2 t)
  then show ?thesis using b1 l2 by (simp add: memcpy_def)
qed

lemma DataWatch_unfold:
  "RingBuf_DataWatch (Some d) len rb =
    (if size_rb rb < ucast len then Some (RINGBUF_OVERFLOW, Some d, rb)
     else case buf rb of
       None \<Rightarrow> None
     | Some b \<Rightarrow>
        (if (ucast (size_rb rb - tail rb) :: u16_t) < len
         then (case memcpy d 0 b (unat (ucast (ucast (tail rb) :: u16_t) * cell_size rb))
                      (unat (ucast (ucast (size_rb rb - tail rb) :: u16_t) * cell_size rb)) of
                 None \<Rightarrow> None
               | Some d1 \<Rightarrow>
                  (case memcpy d1 (unat (ucast (ucast (size_rb rb - tail rb) :: u16_t) * cell_size rb))
                          b 0
                          (unat (ucast (len - (ucast (size_rb rb - tail rb) :: u16_t)) * cell_size rb)) of
                     None \<Rightarrow> None
                   | Some d2 \<Rightarrow> Some (RINGBUF_OK, Some d2, rb)))
         else (case memcpy d 0 b (unat (ucast (ucast (tail rb) :: u16_t) * cell_size rb))
                      (unat (ucast len * cell_size rb)) of
                 None \<Rightarrow> None
               | Some d2 \<Rightarrow> Some (RINGBUF_OK, Some d2, rb))))"
  by (simp add: RingBuf_DataWatch_def Let_def split: option.splits)

lemma DataWatch_idem:
  assumes a0: "RingBuf_DataWatch data len rb = Some (st, data', rb')"
  shows "RingBuf_DataWatch data' len rb = Some (st, data', rb)"
proof (cases data)
  case None
  then show ?thesis using a0 by (simp add: RingBuf_DataWatch_def)
next
  case (Some d)
  have "rb' = rb" using a0 by (rule DataWatch_same)
  then have a: "RingBuf_DataWatch (Some d) len rb = Some (st, data', rb)"
    using a0 Some by simp
  note u = DataWatch_unfold [of d len rb]
  show ?thesis
  proof (cases "size_rb rb < ucast len")
    case True
    then have "st = RINGBUF_OVERFLOW" "data' = Some d" using a by (simp_all add: u)
    then show ?thesis using True by (simp add: u)
  next
    case no: False
    then obtain b where b: "buf rb = Some b"
      using a by (cases "buf rb") (simp_all add: u)
    let ?SP = "unat (ucast (ucast (size_rb rb - tail rb) :: u16_t) * cell_size rb)"
    let ?LT = "unat (ucast (ucast (tail rb) :: u16_t) * cell_size rb)"
    show ?thesis
    proof (cases "(ucast (size_rb rb - tail rb) :: u16_t) < len")
      case True
      let ?RL = "unat (ucast (len - (ucast (size_rb rb - tail rb) :: u16_t)) * cell_size rb)"
      from a no b True have
        "(case memcpy d 0 b ?LT ?SP of
            None \<Rightarrow> None
          | Some d1 \<Rightarrow>
              (case memcpy d1 ?SP b 0 ?RL of
                 None \<Rightarrow> None
               | Some d2 \<Rightarrow> Some (RINGBUF_OK, Some d2, rb))) = Some (st, data', rb)"
        by (simp add: u)
      note F = this
      obtain d1 where m1: "memcpy d 0 b ?LT ?SP = Some d1"
        using F by (cases "memcpy d 0 b ?LT ?SP") simp_all
      then have F2: "(case memcpy d1 ?SP b 0 ?RL of
                 None \<Rightarrow> None
               | Some d2 \<Rightarrow> Some (RINGBUF_OK, Some d2, rb)) = Some (st, data', rb)"
        using F by simp
      obtain d2 where m2: "memcpy d1 ?SP b 0 ?RL = Some d2"
        using F2 by (cases "memcpy d1 ?SP b 0 ?RL") simp_all
      then have r: "st = RINGBUF_OK" "data' = Some d2" using F2 by simp_all
      have "memcpy d2 0 b ?LT ?SP = Some d2" using m1 m2 by (rule memcpy_idem2)
      moreover have "memcpy d2 ?SP b 0 ?RL = Some d2" using m2 by (rule memcpy_idem)
      ultimately show ?thesis
        using no b True r by (simp add: DataWatch_unfold [of d2 len rb])
    next
      case False
      let ?LN = "unat (ucast len * cell_size rb)"
      from a no b False have
        "(case memcpy d 0 b ?LT ?LN of
            None \<Rightarrow> None
          | Some d2 \<Rightarrow> Some (RINGBUF_OK, Some d2, rb)) = Some (st, data', rb)"
        by (simp add: u)
      note F = this
      obtain d2 where m: "memcpy d 0 b ?LT ?LN = Some d2"
        using F by (cases "memcpy d 0 b ?LT ?LN") simp_all
      then have r: "st = RINGBUF_OK" "data' = Some d2" using F by simp_all
      have "memcpy d2 0 b ?LT ?LN = Some d2" using m by (rule memcpy_idem)
      then show ?thesis
        using no b False r by (simp add: DataWatch_unfold [of d2 len rb])
    qed
  qed
qed

text \<open>
  C7: a \<open>RingBuf_DataPut\<close> that returns \<open>RINGBUF_OK\<close> leaves \<open>tail\<close> (and the capacity and
  cell size) as they were; a \<open>RingBuf_DataRead\<close> that returns \<open>RINGBUF_OK\<close> leaves \<open>head\<close>
  (and the storage, capacity and cell size) as they were; a \<open>RingBuf_DataWatch\<close> that
  returns leaves the whole structure as it was, so \<open>RingBuf_Available\<close> gives the same
  result after it as before, and on a bound buffer a \<open>RingBuf_DataRead\<close> right after
  it, into an output region with the contents the watch started from or into the region
  the watch has just filled, returns the status and the data the watch returned.
\<close>

theorem frame_effects:
  fixes rb :: "('w::len) word RINGBUF_t"
  shows "(RingBuf_DataPut input len rb = Some (RINGBUF_OK, rb_p) \<longrightarrow>
            tail rb_p = tail rb \<and> size_rb rb_p = size_rb rb \<and> cell_size rb_p = cell_size rb)
       \<and> (RingBuf_DataRead data len rb = Some (RINGBUF_OK, data_r, rb_r) \<longrightarrow>
            head rb_r = head rb \<and> buf rb_r = buf rb
            \<and> size_rb rb_r = size_rb rb \<and> cell_size rb_r = cell_size rb)
       \<and> (RingBuf_DataWatch data len rb = Some (st, data_w, rb_w) \<longrightarrow>
            rb_w = rb
            \<and> RingBuf_Available l rb_w = RingBuf_Available l rb
            \<and> (buf rb \<noteq> None \<longrightarrow>
                 (\<exists>rb_n. RingBuf_DataRead data len rb_w = Some (st, data_w, rb_n))
               \<and> (\<exists>rb_n. RingBuf_DataRead data_w len rb_w = Some (st, data_w, rb_n))))"
proof (intro conjI impI)
  assume "RingBuf_DataPut input len rb = Some (RINGBUF_OK, rb_p)"
  then show "tail rb_p = tail rb" "size_rb rb_p = size_rb rb" "cell_size rb_p = cell_size rb"
    by (auto simp: RingBuf_DataPut_def Let_def split: option.splits if_splits)
next
  assume r: "RingBuf_DataRead data len rb = Some (RINGBUF_OK, data_r, rb_r)"
  then obtain rb' where "RingBuf_DataWatch data len rb = Some (RINGBUF_OK, data_r, rb')"
    and eq_r: "rb_r = (if size_rb rb' \<le> tail rb' + ucast len then rb'\<lparr>tail := 0\<rparr>
                     else rb'\<lparr>tail := tail rb' + ucast len\<rparr>)"
    by (auto simp: RingBuf_DataRead_def Let_def split: option.splits if_splits)
  then have "rb' = rb" by (auto dest: DataWatch_same)
  then show "head rb_r = head rb" "buf rb_r = buf rb" "size_rb rb_r = size_rb rb"
    "cell_size rb_r = cell_size rb"
    using eq_r by simp_all
next
  assume wt: "RingBuf_DataWatch data len rb = Some (st, data_w, rb_w)"
  then show same: "rb_w = rb" by (rule DataWatch_same)
  then show "RingBuf_Available l rb_w = RingBuf_Available l rb" by simp
  assume b: "buf rb \<noteq> None"
  show "\<exists>rb_n. RingBuf_DataRead data len rb_w = Some (st, data_w, rb_n)"
    using wt b by (auto simp: RingBuf_DataRead_def same Let_def)
  have "RingBuf_DataWatch data_w len rb = Some (st, data_w, rb)" using wt by (rule DataWatch_idem)
  then show "\<exists>rb_n. RingBuf_DataRead data_w len rb_w = Some (st, data_w, rb_n)"
    using b by (auto simp: RingBuf_DataRead_def same Let_def)
qed

theorem frame_effects_witness:
  "RingBuf_DataPut [7, 8] 2 (rb3 1 2)
     = Some (RINGBUF_OK, \<lparr>buf = Some [8, 12, 7], tail = 1, head = 1, size_rb = 3, cell_size = 1\<rparr>)
   \<and> tail \<lparr>buf = Some [8, 12, 7], tail = 1, head = 1, size_rb = 3, cell_size = 1 :: 32 word\<rparr>
       = tail (rb3 1 2)
   \<and> RingBuf_DataRead (Some [0, 0]) 2 (rb3 1 2) = Some (RINGBUF_OK, Some [12, 10], rb3 0 2)
   \<and> head (rb3 0 2) = head (rb3 1 2) \<and> buf (rb3 0 2) = buf (rb3 1 2)
   \<and> RingBuf_DataWatch (Some [0, 0]) 2 (rb3 1 2) = Some (RINGBUF_OK, Some [12, 10], rb3 1 2)
   \<and> RingBuf_Available 7 (rb3 1 2) = (RINGBUF_OK, 1, rb3 1 2)
   \<and> buf (rb3 1 2) \<noteq> None
   \<and> RingBuf_DataRead (Some [12, 10]) 2 (rb3 1 2) = Some (RINGBUF_OK, Some [12, 10], rb3 0 2)"
proof -
  have p: "RingBuf_DataPut [7, 8] 2 (rb3 1 2)
     = Some (RINGBUF_OK, \<lparr>buf = Some [8, 12, 7], tail = 1, head = 1, size_rb = 3, cell_size = 1\<rparr>)"
    by (simp add: eval_defs rb3_def)
  have r: "RingBuf_DataRead (Some [0, 0]) 2 (rb3 1 2) = Some (RINGBUF_OK, Some [12, 10], rb3 0 2)"
    by (simp add: eval_defs rb3_def)
  have v: "RingBuf_DataWatch (Some [0, 0]) 2 (rb3 1 2) = Some (RINGBUF_OK, Some [12, 10], rb3 1 2)"
    by (simp add: eval_defs rb3_def)
  have a: "RingBuf_Available 7 (rb3 1 2) = (RINGBUF_OK, 1, rb3 1 2)"
    by (simp add: eval_defs rb3_def)
  have b: "buf (rb3 1 2) \<noteq> None" by (simp add: rb3_def)
  have r2: "RingBuf_DataRead (Some [12, 10]) 2 (rb3 1 2) = Some (RINGBUF_OK, Some [12, 10], rb3 0 2)"
    by (simp add: eval_defs rb3_def)
  note f = frame_effects [where input = "[7, 8]" and len = 2 and rb = "rb3 1 2"
      and rb_p = "\<lparr>buf = Some [8, 12, 7], tail = 1, head = 1, size_rb = 3, cell_size = 1\<rparr>"
      and data = "Some [0, 0]" and data_r = "Some [12, 10]" and rb_r = "rb3 0 2"
      and st = RINGBUF_OK and data_w = "Some [12, 10]" and rb_w = "rb3 1 2" and l = 7]
  from f p have 1: "tail \<lparr>buf = Some [8, 12, 7], tail = 1, head = 1, size_rb = 3, cell_size = 1 :: 32 word\<rparr>
       = tail (rb3 1 2)" by blast
  from f r have 2: "head (rb3 0 2) = head (rb3 1 2) \<and> buf (rb3 0 2) = buf (rb3 1 2)" by blast
  from f v b obtain rb_n where
    "RingBuf_DataRead (Some [12, 10]) 2 (rb3 1 2) = Some (RINGBUF_OK, Some [12, 10], rb_n)" by blast
  then have 3: "RingBuf_DataRead (Some [12, 10]) 2 (rb3 1 2) = Some (RINGBUF_OK, Some [12, 10], rb3 0 2)"
    using r2 by simp
  show ?thesis using p 1 r 2 v a b 3 by blast
qed

section \<open>Occupancy and order\<close>

text \<open>
  C9: on a valid bound buffer with \<open>head = tail = 0\<close>, a sequence of puts of exactly
  capacity cells in total succeeds, and \<open>RingBuf_Available\<close> then reports 0, as it does
  on the cleared buffer.
\<close>

theorem full_buffer_reports_zero:
  fixes rb :: "('w::len) word RINGBUF_t"
  assumes w: "16 \<le> LENGTH('w)" and v: "rb_valid rb"
    and z: "head rb = 0" "tail rb = 0"
    and reg: "regions_ok (unat (cell_size rb)) ps"
    and tot: "total_len ps = unat (size_rb rb)"
  shows "\<exists>rb'. put_all rb ps = Some rb'
           \<and> RingBuf_Available l rb' = (RINGBUF_OK, 0, rb')
           \<and> RingBuf_Available l rb = (RINGBUF_OK, 0, rb)"
proof -
  from put_all_ok [OF w v _ reg] tot obtain rb' where
    p: "put_all rb ps = Some rb'" and v': "rb_valid rb'"
    and t': "tail rb' = tail rb" and s': "size_rb rb' = size_rb rb"
    and h': "unat (head rb') = (unat (head rb) + total_len ps) mod unat (size_rb rb)"
    by auto
  have h0: "unat (head rb') = 0" using h' z tot by simp
  from Available_ok [OF v', of l] obtain a where
    a: "RingBuf_Available l rb' = (RINGBUF_OK, a, rb')"
    and ua: "unat a = (unat (head rb') + unat (size_rb rb') - unat (tail rb')) mod unat (size_rb rb')"
    by blast
  have "unat a = 0" using ua h0 t' z by simp
  then have a0: "a = 0" by (simp add: unat_eq_0)
  from Available_ok [OF v, of l] obtain a' where
    a': "RingBuf_Available l rb = (RINGBUF_OK, a', rb)"
    and ua': "unat a' = (unat (head rb) + unat (size_rb rb) - unat (tail rb)) mod unat (size_rb rb)"
    by blast
  have "unat a' = 0" using ua' z by simp
  then have a'0: "a' = 0" by (simp add: unat_eq_0)
  show ?thesis using p a a0 a' a'0 by simp
qed

theorem full_buffer_reports_zero_witness:
  "16 \<le> LENGTH(32) \<and> rb_valid (rb3 0 0) \<and> head (rb3 0 0) = 0 \<and> tail (rb3 0 0) = 0
   \<and> regions_ok (unat (cell_size (rb3 0 0))) [([1], 1), ([2, 3], 2)]
   \<and> total_len [([1], 1), ([2, 3], 2)] = unat (size_rb (rb3 0 0))
   \<and> put_all (rb3 0 0) [([1], 1), ([2, 3], 2)]
       = Some \<lparr>buf = Some [1, 2, 3], tail = 0, head = 0, size_rb = 3, cell_size = 1\<rparr>
   \<and> RingBuf_Available 7 \<lparr>buf = Some [1, 2, 3], tail = 0, head = 0, size_rb = 3, cell_size = 1 :: 32 word\<rparr>
       = (RINGBUF_OK, 0, \<lparr>buf = Some [1, 2, 3], tail = 0, head = 0, size_rb = 3, cell_size = 1\<rparr>)
   \<and> RingBuf_Available 7 (rb3 0 0) = (RINGBUF_OK, 0, rb3 0 0)"
proof -
  have h: "16 \<le> LENGTH(32)" "rb_valid (rb3 0 0)" "head (rb3 0 0) = 0" "tail (rb3 0 0) = 0"
    "regions_ok (unat (cell_size (rb3 0 0))) [([1], 1), ([2, 3], 2)]"
    "total_len [([1], 1), ([2, 3], 2)] = unat (size_rb (rb3 0 0))"
    by (simp_all add: eval_defs rb3_def rb_valid_def regions_ok_def total_len_def)
  have p: "put_all (rb3 0 0) [([1], 1), ([2, 3], 2)]
       = Some \<lparr>buf = Some [1, 2, 3], tail = 0, head = 0, size_rb = 3, cell_size = 1\<rparr>"
    by (simp add: eval_defs rb3_def rb_valid_def regions_ok_def total_len_def)
  from full_buffer_reports_zero [OF h, of 7] p
  have "RingBuf_Available 7 \<lparr>buf = Some [1, 2, 3], tail = 0, head = 0, size_rb = 3, cell_size = 1 :: 32 word\<rparr>
       = (RINGBUF_OK, 0, \<lparr>buf = Some [1, 2, 3], tail = 0, head = 0, size_rb = 3, cell_size = 1\<rparr>)
     \<and> RingBuf_Available 7 (rb3 0 0) = (RINGBUF_OK, 0, rb3 0 0)"
    by auto
  then show ?thesis using h p by simp
qed

text \<open>
  C4, as stated, on the buffer \<open>RingBuf_Init\<close> makes of a zeroed storage of three one-byte
  cells. Putting 3 cells leaves \<open>head = tail = 0\<close> and \<open>RingBuf_Available\<close> reports 0, not
  3. After one cell has been put (a reachable state with one cell occupied), putting
  one more cell makes it report 2, not 1. After two cells have been put and read
  (\<open>head = tail = 2\<close>), putting two cells makes it report 2, and reading the two cells in
  one call that goes past the end of the storage sets \<open>tail\<close> to 0, so that it reports 1,
  not 0.
\<close>

theorem available_accounting_counterexample:
  "put_all rb_fresh [([1, 2, 3], 3)]
     = Some \<lparr>buf = Some [1, 2, 3], tail = 0, head = 0, size_rb = 3, cell_size = 1\<rparr>
   \<and> RingBuf_Available 7 \<lparr>buf = Some [1, 2, 3], tail = 0, head = 0, size_rb = 3, cell_size = 1 :: 32 word\<rparr>
     = (RINGBUF_OK, 0, \<lparr>buf = Some [1, 2, 3], tail = 0, head = 0, size_rb = 3, cell_size = 1\<rparr>)
   \<and> total_len [([1, 2, 3], 3)] = 3
   \<and> put_all rb_fresh [([11], 1)]
     = Some \<lparr>buf = Some [11, 0, 0], tail = 0, head = 1, size_rb = 3, cell_size = 1\<rparr>
   \<and> put_all \<lparr>buf = Some [11, 0, 0], tail = 0, head = 1, size_rb = 3, cell_size = 1 :: 32 word\<rparr>
         [([7], 1)]
     = Some \<lparr>buf = Some [11, 7, 0], tail = 0, head = 2, size_rb = 3, cell_size = 1\<rparr>
   \<and> RingBuf_Available 7 \<lparr>buf = Some [11, 7, 0], tail = 0, head = 2, size_rb = 3, cell_size = 1 :: 32 word\<rparr>
     = (RINGBUF_OK, 2, \<lparr>buf = Some [11, 7, 0], tail = 0, head = 2, size_rb = 3, cell_size = 1\<rparr>)
   \<and> total_len [([7], 1)] = 1
   \<and> put_all rb_fresh [([1, 2], 2)]
     = Some \<lparr>buf = Some [1, 2, 0], tail = 0, head = 2, size_rb = 3, cell_size = 1\<rparr>
   \<and> read_all \<lparr>buf = Some [1, 2, 0], tail = 0, head = 2, size_rb = 3, cell_size = 1 :: 32 word\<rparr>
         [([0, 0], 2)]
     = Some ([1, 2], \<lparr>buf = Some [1, 2, 0], tail = 2, head = 2, size_rb = 3, cell_size = 1\<rparr>)
   \<and> put_all \<lparr>buf = Some [1, 2, 0], tail = 2, head = 2, size_rb = 3, cell_size = 1 :: 32 word\<rparr>
         [([5, 6], 2)]
     = Some \<lparr>buf = Some [6, 2, 5], tail = 2, head = 1, size_rb = 3, cell_size = 1\<rparr>
   \<and> RingBuf_Available 7 \<lparr>buf = Some [6, 2, 5], tail = 2, head = 1, size_rb = 3, cell_size = 1 :: 32 word\<rparr>
     = (RINGBUF_OK, 2, \<lparr>buf = Some [6, 2, 5], tail = 2, head = 1, size_rb = 3, cell_size = 1\<rparr>)
   \<and> read_all \<lparr>buf = Some [6, 2, 5], tail = 2, head = 1, size_rb = 3, cell_size = 1 :: 32 word\<rparr>
         [([0, 0], 2)]
     = Some ([5, 6], \<lparr>buf = Some [6, 2, 5], tail = 0, head = 1, size_rb = 3, cell_size = 1\<rparr>)
   \<and> RingBuf_Available 7 \<lparr>buf = Some [6, 2, 5], tail = 0, head = 1, size_rb = 3, cell_size = 1 :: 32 word\<rparr>
     = (RINGBUF_OK, 1, \<lparr>buf = Some [6, 2, 5], tail = 0, head = 1, size_rb = 3, cell_size = 1\<rparr>)
   \<and> total_len [([5, 6], 2)] - total_len [([0, 0], 2)] = 0"
  by (simp add: eval_defs rb_fresh_def rb_zero_def total_len_def)

text \<open>
  C4, amended: on a valid bound buffer that is empty (\<open>head = tail\<close>), after a sequence
  of puts of \<open>m \<le> capacity\<close> cells in total \<open>RingBuf_Available\<close> reports \<open>m mod capacity\<close>
  (that is \<open>m\<close> when \<open>m < capacity\<close>, and 0 when \<open>m = capacity\<close>); after a following sequence
  of reads of \<open>n \<le> m\<close> cells in total, none of which goes past the end of the storage,
  it reports \<open>(m - n) mod capacity\<close>.
\<close>

theorem available_accounting:
  fixes rb :: "('w::len) word RINGBUF_t"
  assumes w: "16 \<le> LENGTH('w)" and v: "rb_valid rb"
    and empty: "head rb = tail rb"
    and regp: "regions_ok (unat (cell_size rb)) ps"
    and m: "total_len ps \<le> unat (size_rb rb)"
    and regr: "regions_ok (unat (cell_size rb)) rs"
    and n: "total_len rs \<le> total_len ps"
    and fit: "reads_within (unat (size_rb rb)) (unat (tail rb)) (map (\<lambda>(x, l). unat l) rs)"
  shows "\<exists>rb1 a1 out rb2 a2.
           put_all rb ps = Some rb1
           \<and> RingBuf_Available l rb1 = (RINGBUF_OK, a1, rb1)
           \<and> unat a1 = total_len ps mod unat (size_rb rb)
           \<and> read_all rb1 rs = Some (out, rb2)
           \<and> RingBuf_Available l rb2 = (RINGBUF_OK, a2, rb2)
           \<and> unat a2 = (total_len ps - total_len rs) mod unat (size_rb rb)"
proof -
  let ?N = "unat (size_rb rb)" and ?t = "unat (tail rb)"
  let ?m = "total_len ps" and ?n = "total_len rs"
  have tN: "?t < ?N" using v by (auto elim: rb_validD)
  from put_all_ok [OF w v m regp] obtain rb1 where
    p: "put_all rb ps = Some rb1" and v1: "rb_valid rb1"
    and t1: "tail rb1 = tail rb" and s1: "size_rb rb1 = size_rb rb"
    and c1: "cell_size rb1 = cell_size rb"
    and h1: "unat (head rb1) = (?t + ?m) mod ?N"
    unfolding empty by auto
  from Available_ok [OF v1, of l] obtain a1 where
    a1: "RingBuf_Available l rb1 = (RINGBUF_OK, a1, rb1)"
    and "unat a1 = (unat (head rb1) + unat (size_rb rb1) - unat (tail rb1)) mod unat (size_rb rb1)"
    by blast
  then have "unat a1 = ((?t + ?m) mod ?N + ?N - (?t + 0) mod ?N) mod ?N"
    using tN by (simp add: h1 s1 t1)
  also have "\<dots> = (?m - 0) mod ?N" using tN _ m by (rule occupied_mod) simp
  finally have u1: "unat a1 = ?m mod ?N" by simp
  have nN: "?n \<le> ?N" using n m by simp
  from read_all_within [OF w v1, of rs] nN regr fit obtain rb2 where
    r: "read_all rb1 rs = Some (ring_cells rb1 ?t ?n, rb2)" and v2: "rb_valid rb2"
    and h2: "head rb2 = head rb1" and s2: "size_rb rb2 = size_rb rb"
    and t2: "unat (tail rb2) = (?t + ?n) mod ?N"
    unfolding s1 c1 t1 by auto
  from Available_ok [OF v2, of l] obtain a2 where
    a2: "RingBuf_Available l rb2 = (RINGBUF_OK, a2, rb2)"
    and "unat a2 = (unat (head rb2) + unat (size_rb rb2) - unat (tail rb2)) mod unat (size_rb rb2)"
    by blast
  then have "unat a2 = ((?t + ?m) mod ?N + ?N - (?t + ?n) mod ?N) mod ?N"
    by (simp add: h2 h1 s2 t2)
  also have "\<dots> = (?m - ?n) mod ?N" using tN n m by (rule occupied_mod)
  finally have u2: "unat a2 = (?m - ?n) mod ?N" .
  show ?thesis using p a1 u1 r a2 u2 by blast
qed

theorem available_accounting_witness:
  "16 \<le> LENGTH(32) \<and> rb_valid (rb3 2 2) \<and> head (rb3 2 2) = tail (rb3 2 2)
   \<and> regions_ok (unat (cell_size (rb3 2 2))) [([5], 1), ([6], 1)]
   \<and> total_len [([5], 1), ([6], 1)] \<le> unat (size_rb (rb3 2 2))
   \<and> regions_ok (unat (cell_size (rb3 2 2))) [([0], 1)]
   \<and> total_len [([0], 1)] \<le> total_len [([5], 1), ([6], 1)]
   \<and> reads_within (unat (size_rb (rb3 2 2))) (unat (tail (rb3 2 2))) (map (\<lambda>(x, l). unat l) [([0], 1 :: u16_t)])
   \<and> put_all (rb3 2 2) [([5], 1), ([6], 1)]
       = Some \<lparr>buf = Some [6, 12, 5], tail = 2, head = 1, size_rb = 3, cell_size = 1\<rparr>
   \<and> RingBuf_Available 7 \<lparr>buf = Some [6, 12, 5], tail = 2, head = 1, size_rb = 3, cell_size = 1 :: 32 word\<rparr>
       = (RINGBUF_OK, 2, \<lparr>buf = Some [6, 12, 5], tail = 2, head = 1, size_rb = 3, cell_size = 1\<rparr>)
   \<and> read_all \<lparr>buf = Some [6, 12, 5], tail = 2, head = 1, size_rb = 3, cell_size = 1 :: 32 word\<rparr> [([0], 1)]
       = Some ([5], \<lparr>buf = Some [6, 12, 5], tail = 0, head = 1, size_rb = 3, cell_size = 1\<rparr>)
   \<and> RingBuf_Available 7 \<lparr>buf = Some [6, 12, 5], tail = 0, head = 1, size_rb = 3, cell_size = 1 :: 32 word\<rparr>
       = (RINGBUF_OK, 1, \<lparr>buf = Some [6, 12, 5], tail = 0, head = 1, size_rb = 3, cell_size = 1\<rparr>)
   \<and> total_len [([5], 1), ([6], 1)] mod unat (size_rb (rb3 2 2)) = 2
   \<and> (total_len [([5], 1), ([6], 1)] - total_len [([0], 1)]) mod unat (size_rb (rb3 2 2)) = 1"
proof -
  have h: "16 \<le> LENGTH(32)" "rb_valid (rb3 2 2)" "head (rb3 2 2) = tail (rb3 2 2)"
    "regions_ok (unat (cell_size (rb3 2 2))) [([5], 1), ([6], 1)]"
    "total_len [([5], 1), ([6], 1)] \<le> unat (size_rb (rb3 2 2))"
    "regions_ok (unat (cell_size (rb3 2 2))) [([0], 1)]"
    "total_len [([0], 1)] \<le> total_len [([5], 1), ([6], 1)]"
    "reads_within (unat (size_rb (rb3 2 2))) (unat (tail (rb3 2 2))) (map (\<lambda>(x, l). unat l) [([0], 1 :: u16_t)])"
    by (simp_all add: eval_defs rb3_def rb_valid_def regions_ok_def total_len_def)
  have p: "put_all (rb3 2 2) [([5], 1), ([6], 1)]
       = Some \<lparr>buf = Some [6, 12, 5], tail = 2, head = 1, size_rb = 3, cell_size = 1\<rparr>"
    by (simp add: eval_defs rb3_def rb_valid_def regions_ok_def total_len_def)
  have r: "read_all \<lparr>buf = Some [6, 12, 5], tail = 2, head = 1, size_rb = 3, cell_size = 1 :: 32 word\<rparr> [([0], 1)]
       = Some ([5], \<lparr>buf = Some [6, 12, 5], tail = 0, head = 1, size_rb = 3, cell_size = 1\<rparr>)"
    by (simp add: eval_defs rb3_def rb_valid_def regions_ok_def total_len_def)
  have m: "total_len [([5], 1), ([6], 1)] mod unat (size_rb (rb3 2 2)) = 2"
    "(total_len [([5], 1), ([6], 1)] - total_len [([0], 1)]) mod unat (size_rb (rb3 2 2)) = 1"
    by (simp_all add: eval_defs rb3_def rb_valid_def regions_ok_def total_len_def)
  from available_accounting [OF h, of 7] obtain rb1 a1 out rb2 a2 where
    o: "put_all (rb3 2 2) [([5], 1), ([6], 1)] = Some rb1"
      "RingBuf_Available 7 rb1 = (RINGBUF_OK, a1, rb1)"
      "unat a1 = total_len [([5], 1), ([6], 1)] mod unat (size_rb (rb3 2 2))"
      "read_all rb1 [([0], 1)] = Some (out, rb2)"
      "RingBuf_Available 7 rb2 = (RINGBUF_OK, a2, rb2)"
      "unat a2 = (total_len [([5], 1), ([6], 1)] - total_len [([0], 1)]) mod unat (size_rb (rb3 2 2))"
    by blast
  have e1: "rb1 = \<lparr>buf = Some [6, 12, 5], tail = 2, head = 1, size_rb = 3, cell_size = 1\<rparr>"
    using o(1) p by simp
  have e2: "rb2 = \<lparr>buf = Some [6, 12, 5], tail = 0, head = 1, size_rb = 3, cell_size = 1\<rparr>"
    using o(4) r by (simp add: e1)
  have "a1 = of_nat 2" using o(3) m(1) by (intro word_eq_of_nat) simp
  then have a1: "a1 = 2" by simp
  have "a2 = of_nat 1" using o(6) m(2) by (intro word_eq_of_nat) simp
  then have a2: "a2 = 1" by simp
  have "RingBuf_Available 7 \<lparr>buf = Some [6, 12, 5], tail = 2, head = 1, size_rb = 3, cell_size = 1 :: 32 word\<rparr>
       = (RINGBUF_OK, 2, \<lparr>buf = Some [6, 12, 5], tail = 2, head = 1, size_rb = 3, cell_size = 1\<rparr>)
     \<and> RingBuf_Available 7 \<lparr>buf = Some [6, 12, 5], tail = 0, head = 1, size_rb = 3, cell_size = 1 :: 32 word\<rparr>
       = (RINGBUF_OK, 1, \<lparr>buf = Some [6, 12, 5], tail = 0, head = 1, size_rb = 3, cell_size = 1\<rparr>)"
    using o(2) o(5) by (simp only: e1 e2 a1 a2)
  then show ?thesis using h p r m by simp
qed

text \<open>
  C3, as stated, on the buffer \<open>RingBuf_Init\<close> makes of a zeroed storage of three one-byte
  cells. After one cell (11) has been put, a put of the cell 7 followed by a read of
  one cell delivers 11, the cell that was already waiting. After two cells have been
  put and read (\<open>head = tail = 2\<close>, the buffer is empty), a put of the three cells 5, 6, 7
  followed by a read of two cells and a read of one cell delivers 5, 6, 6: the first read
  goes past the end of the storage and leaves \<open>tail = 0\<close> instead of 1.
\<close>

theorem fifo_order_counterexample:
  "put_all rb_fresh [([11], 1)]
     = Some \<lparr>buf = Some [11, 0, 0], tail = 0, head = 1, size_rb = 3, cell_size = 1\<rparr>
   \<and> put_all \<lparr>buf = Some [11, 0, 0], tail = 0, head = 1, size_rb = 3, cell_size = 1 :: 32 word\<rparr>
         [([7], 1)]
     = Some \<lparr>buf = Some [11, 7, 0], tail = 0, head = 2, size_rb = 3, cell_size = 1\<rparr>
   \<and> read_all \<lparr>buf = Some [11, 7, 0], tail = 0, head = 2, size_rb = 3, cell_size = 1 :: 32 word\<rparr>
         [([0], 1)]
     = Some ([11], \<lparr>buf = Some [11, 7, 0], tail = 1, head = 2, size_rb = 3, cell_size = 1\<rparr>)
   \<and> put_data 1 [([7], 1)] = [7]
   \<and> put_all rb_fresh [([1, 2], 2)]
     = Some \<lparr>buf = Some [1, 2, 0], tail = 0, head = 2, size_rb = 3, cell_size = 1\<rparr>
   \<and> read_all \<lparr>buf = Some [1, 2, 0], tail = 0, head = 2, size_rb = 3, cell_size = 1 :: 32 word\<rparr>
         [([0, 0], 2)]
     = Some ([1, 2], \<lparr>buf = Some [1, 2, 0], tail = 2, head = 2, size_rb = 3, cell_size = 1\<rparr>)
   \<and> put_all \<lparr>buf = Some [1, 2, 0], tail = 2, head = 2, size_rb = 3, cell_size = 1 :: 32 word\<rparr>
         [([5, 6, 7], 3)]
     = Some \<lparr>buf = Some [6, 7, 5], tail = 2, head = 2, size_rb = 3, cell_size = 1\<rparr>
   \<and> read_all \<lparr>buf = Some [6, 7, 5], tail = 2, head = 2, size_rb = 3, cell_size = 1 :: 32 word\<rparr>
         [([0, 0], 2), ([0], 1)]
     = Some ([5, 6, 6], \<lparr>buf = Some [6, 7, 5], tail = 1, head = 2, size_rb = 3, cell_size = 1\<rparr>)
   \<and> put_data 1 [([5, 6, 7], 3)] = [5, 6, 7]"
  by (simp add: eval_defs rb_fresh_def rb_zero_def put_data_def)

text \<open>
  C3, amended: on a valid bound buffer that is empty (\<open>head = tail\<close>), a sequence of puts
  of \<open>k \<le> capacity\<close> cells in total followed by a sequence of reads of \<open>k\<close> cells in
  total, none of which except possibly the last goes past the end of the storage,
  succeeds, and the concatenated read output is the concatenated put input.
\<close>

theorem fifo_order:
  fixes rb :: "('w::len) word RINGBUF_t"
  assumes w: "16 \<le> LENGTH('w)" and v: "rb_valid rb"
    and empty: "head rb = tail rb"
    and regp: "regions_ok (unat (cell_size rb)) ps"
    and k: "total_len ps \<le> unat (size_rb rb)"
    and regr: "regions_ok (unat (cell_size rb)) rs"
    and same: "total_len rs = total_len ps"
    and fit: "reads_fit (unat (size_rb rb)) (unat (tail rb)) (map (\<lambda>(x, l). unat l) rs)"
  shows "\<exists>rb1 rb2. put_all rb ps = Some rb1
           \<and> read_all rb1 rs = Some (put_data (unat (cell_size rb)) ps, rb2)"
proof -
  let ?N = "unat (size_rb rb)" and ?t = "unat (tail rb)"
  from put_all_ok [OF w v k regp] obtain rb1 where
    p: "put_all rb ps = Some rb1" and v1: "rb_valid rb1"
    and t1: "tail rb1 = tail rb" and s1: "size_rb rb1 = size_rb rb"
    and c1: "cell_size rb1 = cell_size rb"
    and d1: "ring_cells rb1 ?t (total_len ps) = put_data (unat (cell_size rb)) ps"
    unfolding empty by auto
  from read_all_fit [OF w v1, of rs] k regr fit obtain rb2 where
    "read_all rb1 rs = Some (ring_cells rb1 ?t (total_len rs), rb2)"
    unfolding s1 c1 t1 same by auto
  then show ?thesis using p d1 by (auto simp: same)
qed

theorem fifo_order_witness:
  "16 \<le> LENGTH(32) \<and> rb_valid (rb3 1 1) \<and> head (rb3 1 1) = tail (rb3 1 1)
   \<and> regions_ok (unat (cell_size (rb3 1 1))) [([5], 1), ([6, 7], 2)]
   \<and> total_len [([5], 1), ([6, 7], 2)] \<le> unat (size_rb (rb3 1 1))
   \<and> regions_ok (unat (cell_size (rb3 1 1))) [([0], 1), ([0, 0], 2)]
   \<and> total_len [([0], 1), ([0, 0], 2)] = total_len [([5], 1), ([6, 7], 2)]
   \<and> reads_fit (unat (size_rb (rb3 1 1))) (unat (tail (rb3 1 1)))
         (map (\<lambda>(x, l). unat l) [([0], 1 :: u16_t), ([0, 0], 2)])
   \<and> put_all (rb3 1 1) [([5], 1), ([6, 7], 2)]
       = Some \<lparr>buf = Some [7, 5, 6], tail = 1, head = 1, size_rb = 3, cell_size = 1\<rparr>
   \<and> read_all \<lparr>buf = Some [7, 5, 6], tail = 1, head = 1, size_rb = 3, cell_size = 1 :: 32 word\<rparr>
         [([0], 1), ([0, 0], 2)]
       = Some ([5, 6, 7], \<lparr>buf = Some [7, 5, 6], tail = 0, head = 1, size_rb = 3, cell_size = 1\<rparr>)
   \<and> put_data (unat (cell_size (rb3 1 1))) [([5], 1), ([6, 7], 2)] = [5, 6, 7]"
proof -
  have h: "16 \<le> LENGTH(32)" "rb_valid (rb3 1 1)" "head (rb3 1 1) = tail (rb3 1 1)"
    "regions_ok (unat (cell_size (rb3 1 1))) [([5], 1), ([6, 7], 2)]"
    "total_len [([5], 1), ([6, 7], 2)] \<le> unat (size_rb (rb3 1 1))"
    "regions_ok (unat (cell_size (rb3 1 1))) [([0], 1), ([0, 0], 2)]"
    "total_len [([0], 1), ([0, 0], 2)] = total_len [([5], 1), ([6, 7], 2)]"
    "reads_fit (unat (size_rb (rb3 1 1))) (unat (tail (rb3 1 1)))
         (map (\<lambda>(x, l). unat l) [([0], 1 :: u16_t), ([0, 0], 2)])"
    by (simp_all add: eval_defs rb3_def rb_valid_def regions_ok_def total_len_def put_data_def)
  have p: "put_all (rb3 1 1) [([5], 1), ([6, 7], 2)]
       = Some \<lparr>buf = Some [7, 5, 6], tail = 1, head = 1, size_rb = 3, cell_size = 1\<rparr>"
    by (simp add: eval_defs rb3_def rb_valid_def regions_ok_def total_len_def put_data_def)
  have d: "put_data (unat (cell_size (rb3 1 1))) [([5], 1), ([6, 7], 2)] = [5, 6, 7]"
    by (simp add: eval_defs rb3_def rb_valid_def regions_ok_def total_len_def put_data_def)
  have r: "read_all \<lparr>buf = Some [7, 5, 6], tail = 1, head = 1, size_rb = 3, cell_size = 1 :: 32 word\<rparr>
         [([0], 1), ([0, 0], 2)]
       = Some ([5, 6, 7], \<lparr>buf = Some [7, 5, 6], tail = 0, head = 1, size_rb = 3, cell_size = 1\<rparr>)"
    by (simp add: eval_defs rb3_def rb_valid_def regions_ok_def total_len_def put_data_def)
  from fifo_order [OF h] obtain rb1 rb2 where
    o: "put_all (rb3 1 1) [([5], 1), ([6, 7], 2)] = Some rb1"
      "read_all rb1 [([0], 1), ([0, 0], 2)]
        = Some (put_data (unat (cell_size (rb3 1 1))) [([5], 1), ([6, 7], 2)], rb2)"
    by blast
  have e1: "rb1 = \<lparr>buf = Some [7, 5, 6], tail = 1, head = 1, size_rb = 3, cell_size = 1\<rparr>"
    using o(1) p by simp
  have "read_all \<lparr>buf = Some [7, 5, 6], tail = 1, head = 1, size_rb = 3, cell_size = 1 :: 32 word\<rparr>
         [([0], 1), ([0, 0], 2)] = Some ([5, 6, 7], rb2)"
    using o(2) by (simp only: e1 d)
  then show ?thesis using h p d r by simp
qed

end
